theory Spec2Isabelle
  imports
    Main
    "HOL-Library.Word"
    "HOL-Library.Sublist"
    "HOL-Library.Char_ord"
    "HOL-Library.List_Lexorder"
    "HOL-Library.Product_Lexorder"
begin

unbundle bit_operations_syntax

section \<open>The persistent store of fileshaare.py\<close>

text \<open>
  The tables created by \<open>init_database\<close>: \<open>groups\<close>, \<open>files\<close> and \<open>file_links\<close>, one
  record per row, the columns under their SQL names (prefixed where two tables share a
  name). Python integers and the SQL INTEGER/BIGINT columns are \<open>int\<close>; PostgreSQL
  does not wrap on overflow but raises, which the statements below return as
  \<open>NumericValueOutOfRange\<close>. The timestamp columns are never read by the code that is
  modelled and are left out. A SERIAL primary key draws from a sequence, kept as the
  last value given to a row that was stored. In PostgreSQL an INSERT that is rejected
  has drawn its value all the same, so after a rejected INSERT the ids there are higher
  than the ones here; in both, an id is fresh, higher than the earlier ones and never
  used again, and nothing below rests on more than that.
\<close>

record group_row =
  g_id :: int
  g_name :: string
  g_owner_id :: int
  total_files :: int
  total_size :: int

record file_row =
  f_id :: int
  f_group_id :: int
  serial_number :: int
  unique_id :: string
  file_name :: string
  file_type :: string
  file_size :: int
  telegram_file_id :: string
  uploader_id :: int
  uploader_username :: "string option"
  storage_message_id :: int

text \<open>\<open>link_type TEXT NOT NULL CHECK (link_type IN ('file', 'group'))\<close>\<close>

datatype link_kind = FileLink | GroupLink

record link_row =
  l_id :: int
  link_code :: string
  l_file_id :: "int option"
  l_group_id :: "int option"
  link_type :: link_kind
  l_owner_id :: int
  clicks :: int
  is_active :: bool

record database =
  groups :: "group_row list"
  files :: "file_row list"
  file_links :: "link_row list"
  groups_seq :: int
  files_seq :: int
  links_seq :: int

definition empty_db :: database where
  "empty_db = \<lparr>groups = [], files = [], file_links = [],
               groups_seq = 0, files_seq = 0, links_seq = 0\<rparr>"

text \<open>What asyncpg raises for a statement the server rejects.\<close>

datatype db_error = UniqueViolation | ForeignKeyViolation | NumericValueOutOfRange

definition int4 :: "int \<Rightarrow> bool" where
  "int4 x \<longleftrightarrow> - 2147483648 \<le> x \<and> x \<le> 2147483647"

definition int8 :: "int \<Rightarrow> bool" where
  "int8 x \<longleftrightarrow> - 9223372036854775808 \<le> x \<and> x \<le> 9223372036854775807"

subsection \<open>The statements of the upload transaction\<close>

definition group_files :: "database \<Rightarrow> int \<Rightarrow> file_row list" where
  "group_files db gid = filter (\<lambda>f. f_group_id f = gid) (files db)"

definition group_serials :: "database \<Rightarrow> int \<Rightarrow> int list" where
  "group_serials db gid = map serial_number (group_files db gid)"

text \<open>\<open>SELECT COALESCE(MAX(serial_number), 0) + 1 FROM files WHERE group_id = $1\<close>\<close>

definition max_serial :: "database \<Rightarrow> int \<Rightarrow> int" where
  "max_serial db gid =
     (case group_serials db gid of [] \<Rightarrow> 0 | s # ss \<Rightarrow> fold max ss s)"

definition select_next_serial :: "database \<Rightarrow> int \<Rightarrow> db_error + int" where
  "select_next_serial db gid =
     (if int4 (max_serial db gid + 1) then Inr (max_serial db gid + 1)
      else Inl NumericValueOutOfRange)"

text \<open>The values \<open>_process_file_upload\<close> binds to its INSERT, apart from the serial.\<close>

record upload_meta =
  um_unique_id :: string
  um_file_name :: string
  um_file_type :: string
  um_file_size :: int
  um_telegram_file_id :: string
  um_uploader_id :: int
  um_uploader_username :: "string option"
  um_storage_message_id :: int

definition new_file_row :: "int \<Rightarrow> int \<Rightarrow> int \<Rightarrow> upload_meta \<Rightarrow> file_row" where
  "new_file_row fid gid serial m =
     \<lparr>f_id = fid, f_group_id = gid, serial_number = serial,
      unique_id = um_unique_id m, file_name = um_file_name m,
      file_type = um_file_type m, file_size = um_file_size m,
      telegram_file_id = um_telegram_file_id m, uploader_id = um_uploader_id m,
      uploader_username = um_uploader_username m,
      storage_message_id = um_storage_message_id m\<rparr>"

text \<open>
  \<open>INSERT INTO files (...) VALUES ($1, ..., $10)\<close> under the constraints of the table:
  \<open>unique_id TEXT UNIQUE\<close>, \<open>UNIQUE(group_id, serial_number)\<close>, the foreign key
  \<open>group_id REFERENCES groups(id)\<close>, and the ranges of the INTEGER and BIGINT columns.
\<close>

definition insert_file :: "database \<Rightarrow> int \<Rightarrow> int \<Rightarrow> upload_meta \<Rightarrow> db_error + database" where
  "insert_file db gid serial m =
     (if \<not> (int4 gid \<and> int4 serial \<and> int8 (um_file_size m)
             \<and> int8 (um_uploader_id m) \<and> int8 (um_storage_message_id m))
        then Inl NumericValueOutOfRange
      else if um_unique_id m \<in> unique_id ` set (files db) then Inl UniqueViolation
      else if serial \<in> set (group_serials db gid) then Inl UniqueViolation
      else if gid \<notin> g_id ` set (groups db) then Inl ForeignKeyViolation
      else Inr (db\<lparr>files := files db @ [new_file_row (files_seq db + 1) gid serial m],
                   files_seq := files_seq db + 1\<rparr>))"

text \<open>
  \<open>UPDATE groups SET total_files = total_files + 1, total_size = total_size + $1
  WHERE id = $2\<close> on upload, and the same statement with \<open>- 1\<close> and \<open>- $1\<close> on deletion:
  \<open>dn\<close> and \<open>dsz\<close> are the two increments.
\<close>

definition bump_group :: "int \<Rightarrow> int \<Rightarrow> int \<Rightarrow> group_row \<Rightarrow> group_row" where
  "bump_group gid dn dsz g =
     (if g_id g = gid
      then g\<lparr>total_files := total_files g + dn, total_size := total_size g + dsz\<rparr>
      else g)"

definition update_group_stats :: "database \<Rightarrow> int \<Rightarrow> int \<Rightarrow> int \<Rightarrow> db_error + database" where
  "update_group_stats db gid dn dsz =
     (if list_all (\<lambda>g. g_id g = gid \<longrightarrow>
                        int4 (total_files g + dn) \<and> int8 (total_size g + dsz)) (groups db)
      then Inr (db\<lparr>groups := map (bump_group gid dn dsz) (groups db)\<rparr>)
      else Inl NumericValueOutOfRange)"

text \<open>
  The body of \<open>async with conn.transaction()\<close> in \<open>_process_file_upload\<close>: the three
  statements in order. An exception in any of them leaves the block, which rolls the
  transaction back: the result is then the error alone and the database is the one the
  transaction started from.
\<close>

definition register_upload :: "database \<Rightarrow> int \<Rightarrow> upload_meta \<Rightarrow> db_error + (int \<times> database)" where
  "register_upload db gid m =
     (case select_next_serial db gid of
        Inl e \<Rightarrow> Inl e
      | Inr next_serial \<Rightarrow>
          (case insert_file db gid next_serial m of
             Inl e \<Rightarrow> Inl e
           | Inr db1 \<Rightarrow>
               (case update_group_stats db1 gid 1 (um_file_size m) of
                  Inl e \<Rightarrow> Inl e
                | Inr db2 \<Rightarrow> Inr (next_serial, db2))))"

text \<open>asyncpg's \<open>fetchrow\<close>: the first row of the result, or \<open>None\<close>.\<close>

definition fetchrow :: "'a list \<Rightarrow> 'a option" where
  "fetchrow rows = (case rows of [] \<Rightarrow> None | r # _ \<Rightarrow> Some r)"

subsection \<open>Groups\<close>

text \<open>
  \<open>INSERT INTO groups (name, owner_id) VALUES ($1, $2)\<close> in \<open>_create_new_group\<close>,
  under \<open>UNIQUE(name, owner_id)\<close>; the counters take their default 0.
\<close>

definition insert_group :: "database \<Rightarrow> string \<Rightarrow> int \<Rightarrow> db_error + database" where
  "insert_group db name owner =
     (if \<not> int8 owner then Inl NumericValueOutOfRange
      else if \<exists>g\<in>set (groups db). g_name g = name \<and> g_owner_id g = owner
        then Inl UniqueViolation
      else Inr (db\<lparr>groups := groups db @
                     [\<lparr>g_id = groups_seq db + 1, g_name = name, g_owner_id = owner,
                       total_files = 0, total_size = 0\<rparr>],
                   groups_seq := groups_seq db + 1\<rparr>))"

subsection \<open>The statements of the two deletions\<close>

text \<open>
  \<open>SELECT f.id, f.storage_message_id, f.file_size, g.id as group_id
  FROM files f JOIN groups g ON f.group_id = g.id
  WHERE g.owner_id = $1 AND g.name = $2 AND f.serial_number = $3\<close>, read with
  \<open>fetchrow\<close>: the first row of the join, if there is one.
\<close>

definition owned_files :: "database \<Rightarrow> int \<Rightarrow> string \<Rightarrow> (file_row \<times> group_row) list" where
  "owned_files db user gname =
     concat (map (\<lambda>f. map (\<lambda>g. (f, g))
                          (filter (\<lambda>g. f_group_id f = g_id g
                                       \<and> g_owner_id g = user \<and> g_name g = gname)
                                  (groups db)))
                 (files db))"

definition select_file_for_delete ::
  "database \<Rightarrow> int \<Rightarrow> string \<Rightarrow> int \<Rightarrow> (file_row \<times> group_row) option" where
  "select_file_for_delete db user gname serial =
     fetchrow (filter (\<lambda>(f, g). serial_number f = serial) (owned_files db user gname))"

text \<open>
  \<open>DELETE FROM files WHERE id = $1\<close>. The rows of \<open>file_links\<close> whose \<open>file_id\<close> is
  the deleted id go with it: \<open>FOREIGN KEY (file_id) REFERENCES files(id) ON DELETE
  CASCADE\<close>.
\<close>

definition delete_file_by_id :: "database \<Rightarrow> int \<Rightarrow> database" where
  "delete_file_by_id db fid =
     db\<lparr>files := filter (\<lambda>f. f_id f \<noteq> fid) (files db),
        file_links := filter (\<lambda>l. l_file_id l \<noteq> Some fid) (file_links db)\<rparr>"

text \<open>
  The transaction of \<open>_perform_file_delete\<close>. When the row is not found the handler
  returns from inside the block, which commits a transaction that wrote nothing.
\<close>

definition file_delete_txn ::
  "database \<Rightarrow> int \<Rightarrow> string \<Rightarrow> int \<Rightarrow> db_error + (file_row option \<times> database)" where
  "file_delete_txn db user gname serial =
     (if \<not> int4 serial then Inl NumericValueOutOfRange
      else case select_file_for_delete db user gname serial of
        None \<Rightarrow> Inr (None, db)
      | Some (f, g) \<Rightarrow>
          (case update_group_stats (delete_file_by_id db (f_id f)) (g_id g)
                  (- 1) (- file_size f) of
             Inl e \<Rightarrow> Inl e
           | Inr db2 \<Rightarrow> Inr (Some f, db2)))"

text \<open>
  The transaction of \<open>_perform_group_delete\<close>: the message ids of the group's files are
  read first, then \<open>DELETE FROM groups WHERE owner_id = $1 AND name = $2\<close>. The
  cascades of the schema remove the files of a deleted group
  (\<open>files.group_id ... ON DELETE CASCADE\<close>), the links to a deleted group and the links
  to a deleted file. The number returned is the \<open>n\<close> of the status \<open>DELETE n\<close>.
\<close>

definition select_message_ids :: "database \<Rightarrow> int \<Rightarrow> string \<Rightarrow> int list" where
  "select_message_ids db user gname =
     map (\<lambda>(f, g). storage_message_id f) (owned_files db user gname)"

definition deleted_group_ids :: "database \<Rightarrow> int \<Rightarrow> string \<Rightarrow> int list" where
  "deleted_group_ids db user gname =
     map g_id (filter (\<lambda>g. g_owner_id g = user \<and> g_name g = gname) (groups db))"

definition cascaded_file_ids :: "database \<Rightarrow> int list \<Rightarrow> int list" where
  "cascaded_file_ids db gone =
     map f_id (filter (\<lambda>f. f_group_id f \<in> set gone) (files db))"

definition link_survives :: "int list \<Rightarrow> int list \<Rightarrow> link_row \<Rightarrow> bool" where
  "link_survives gone gone_files l \<longleftrightarrow>
     (case l_group_id l of None \<Rightarrow> True | Some g \<Rightarrow> g \<notin> set gone) \<and>
     (case l_file_id l of None \<Rightarrow> True | Some f \<Rightarrow> f \<notin> set gone_files)"

definition delete_group :: "database \<Rightarrow> int \<Rightarrow> string \<Rightarrow> nat \<times> database" where
  "delete_group db user gname =
     (let gone = deleted_group_ids db user gname;
          gone_files = cascaded_file_ids db gone
      in (length gone,
          db\<lparr>groups := filter (\<lambda>g. \<not> (g_owner_id g = user \<and> g_name g = gname)) (groups db),
             files := filter (\<lambda>f. f_group_id f \<notin> set gone) (files db),
             file_links := filter (link_survives gone gone_files) (file_links db)\<rparr>))"

subsection \<open>The statements on links\<close>

text \<open>
  \<open>INSERT INTO file_links (link_code, file_id, group_id, link_type, owner_id)\<close> under
  \<open>link_code TEXT UNIQUE\<close> and the two foreign keys; \<open>clicks\<close> and \<open>is_active\<close> take
  their defaults 0 and TRUE.
\<close>

definition insert_link ::
  "database \<Rightarrow> string \<Rightarrow> int option \<Rightarrow> int option \<Rightarrow> link_kind \<Rightarrow> int \<Rightarrow> db_error + database" where
  "insert_link db code fid gid kind owner =
     (if \<not> int8 owner then Inl NumericValueOutOfRange
      else if code \<in> link_code ` set (file_links db) then Inl UniqueViolation
      else if (case fid of None \<Rightarrow> False | Some f \<Rightarrow> f \<notin> f_id ` set (files db))
        then Inl ForeignKeyViolation
      else if (case gid of None \<Rightarrow> False | Some g \<Rightarrow> g \<notin> g_id ` set (groups db))
        then Inl ForeignKeyViolation
      else Inr (db\<lparr>file_links := file_links db @
                     [\<lparr>l_id = links_seq db + 1, link_code = code, l_file_id = fid,
                       l_group_id = gid, link_type = kind, l_owner_id = owner,
                       clicks = 0, is_active = True\<rparr>],
                   links_seq := links_seq db + 1\<rparr>))"

text \<open>\<open>SELECT * FROM file_links WHERE link_code = $1 AND is_active = TRUE\<close>, with \<open>fetchrow\<close>.\<close>

definition select_active_link :: "database \<Rightarrow> string \<Rightarrow> link_row option" where
  "select_active_link db code =
     find (\<lambda>l. link_code l = code \<and> is_active l) (file_links db)"

text \<open>\<open>UPDATE file_links SET clicks = clicks + 1 WHERE id = $1\<close>\<close>

definition increment_clicks :: "database \<Rightarrow> int \<Rightarrow> db_error + database" where
  "increment_clicks db lid =
     (if list_all (\<lambda>l. l_id l = lid \<longrightarrow> int4 (clicks l + 1)) (file_links db)
      then Inr (db\<lparr>file_links :=
                     map (\<lambda>l. if l_id l = lid then l\<lparr>clicks := clicks l + 1\<rparr> else l)
                         (file_links db)\<rparr>)
      else Inl NumericValueOutOfRange)"

text \<open>
  \<open>SELECT f.*, g.name as group_name FROM files f JOIN groups g ON f.group_id = g.id
  WHERE f.id = $1\<close>, with \<open>fetchrow\<close>. The parameter is the link's \<open>file_id\<close>, which is
  NULL in a group link and then matches no row.
\<close>

definition select_file_with_group :: "database \<Rightarrow> int option \<Rightarrow> (file_row \<times> string) option" where
  "select_file_with_group db fid =
     fetchrow (concat (map (\<lambda>f. map (\<lambda>g. (f, g_name g))
                                     (filter (\<lambda>g. f_group_id f = g_id g) (groups db)))
                            (filter (\<lambda>f. Some (f_id f) = fid) (files db))))"

text \<open>\<open>SELECT * FROM files WHERE group_id = $1 ORDER BY serial_number\<close>\<close>

definition select_group_files :: "database \<Rightarrow> int option \<Rightarrow> file_row list" where
  "select_group_files db gid =
     sort_key serial_number (filter (\<lambda>f. Some (f_group_id f) = gid) (files db))"

text \<open>\<open>SELECT name FROM groups WHERE id = $1\<close>, with \<open>fetchval\<close>.\<close>

definition select_group_name :: "database \<Rightarrow> int option \<Rightarrow> string option" where
  "select_group_name db gid =
     map_option g_name (find (\<lambda>g. Some (g_id g) = gid) (groups db))"

text \<open>
  \<open>DELETE FROM file_links WHERE link_code = $1 AND owner_id = $2\<close> in
  \<open>revoke_link_handler\<close>, with the number of rows deleted.
\<close>

definition revoke_link :: "database \<Rightarrow> string \<Rightarrow> int \<Rightarrow> nat \<times> database" where
  "revoke_link db code user =
     (length (filter (\<lambda>l. link_code l = code \<and> l_owner_id l = user) (file_links db)),
      db\<lparr>file_links := filter (\<lambda>l. \<not> (link_code l = code \<and> l_owner_id l = user))
                               (file_links db)\<rparr>)"

section \<open>The handlers\<close>

text \<open>
  A handler is modelled with what it does to the world written out: the calls it makes
  on the gate \<open>upload_semaphore\<close>, on the database connection and on the content
  store (the storage channel), in the order it makes them, as a list of events; the
  database it leaves; and the message it answers with. Telegram calls that only write
  to the chat (\<open>reply_text\<close>, \<open>edit_text\<close>) are taken to succeed, and the caption
  queries of \<open>get_file_caption\<close>, which read settings and change nothing, are left out.
\<close>

datatype stmt =
    SelectLink | UpdateClicks | SelectFile | SelectGroupFiles | SelectGroupName
  | SelectNextSerial | InsertFile | UpdateGroupStats
  | SelectFileForDelete | DeleteFile | SelectMessageIds | DeleteGroup

datatype event =
    SemAcquire | SemRelease
  | TxBegin | TxCommit | TxRollback
  | Sql stmt
  | Forward
  | CopyMessage int
  | DeleteMessage int
  | Sleep int
  | SleepBulkDelay
  | SleepDeletePause



text \<open>The number of gate slots a trace holds at its end: acquisitions less releases.\<close>

fun held :: "event list \<Rightarrow> int" where
  "held [] = 0"
| "held (SemAcquire # es) = held es + 1"
| "held (SemRelease # es) = held es - 1"
| "held (e # es) = held es"

text \<open>The slots held at each \<open>Sleep\<close> of a trace, in order.\<close>

fun held_at_sleeps :: "int \<Rightarrow> event list \<Rightarrow> int list" where
  "held_at_sleeps h [] = []"
| "held_at_sleeps h (SemAcquire # es) = held_at_sleeps (h + 1) es"
| "held_at_sleeps h (SemRelease # es) = held_at_sleeps (h - 1) es"
| "held_at_sleeps h (Sleep d # es) = h # held_at_sleeps h es"
| "held_at_sleeps h (e # es) = held_at_sleeps h es"

subsection \<open>\<open>_process_file_upload\<close>\<close>

text \<open>\<open>context.user_data\<close>: the keys the upload path reads and writes.\<close>

record user_data =
  upload_group_id :: "int option"
  upload_group_name :: "string option"
  is_bulk_upload :: bool
  awaiting_group_name :: bool

text \<open>What \<open>update.message.forward(storage_id)\<close> does: the id of the stored message,
  \<open>RetryAfter\<close> with its \<open>retry_after\<close>, or another exception.\<close>

datatype forward_result = Forwarded int | FloodWait int | ForwardError

datatype upload_outcome = Saved int | SaveFailed | WaitingForSlot

text \<open>The \<open>finally\<close> clause.\<close>

definition finally_clear :: "user_data \<Rightarrow> user_data" where
  "finally_clear ud =
     (if \<not> is_bulk_upload ud
      then ud\<lparr>upload_group_id := None, upload_group_name := None\<rparr>
      else ud)"

text \<open>The events of the transaction, as far as it gets.\<close>

definition upload_txn_trace :: "database \<Rightarrow> int \<Rightarrow> upload_meta \<Rightarrow> event list" where
  "upload_txn_trace db gid m =
     TxBegin # Sql SelectNextSerial #
     (case select_next_serial db gid of
        Inl e \<Rightarrow> [TxRollback]
      | Inr next_serial \<Rightarrow>
          Sql InsertFile #
          (case insert_file db gid next_serial m of
             Inl e \<Rightarrow> [TxRollback]
           | Inr db1 \<Rightarrow>
               Sql UpdateGroupStats #
               (case update_group_stats db1 gid 1 (um_file_size m) of
                  Inl e \<Rightarrow> [TxRollback]
                | Inr db2 \<Rightarrow> [TxCommit])))"

text \<open>
  The handler. \<open>free\<close> is the number of slots of \<open>upload_semaphore\<close> the call can take
  without another task releasing one (at most \<open>UPLOAD_CONCURRENCY\<close>); \<open>fwd k\<close> is what
  the \<open>k\<close>-th forward to the storage channel does. The whole body runs inside
  \<open>async with self.upload_semaphore\<close>; the \<open>except FloodWaitError\<close> branch sleeps and
  calls the handler again from inside that block, so the retry takes a further slot
  while the caller still holds its own. With no slot left the \<open>acquire\<close> of the retry
  suspends: \<open>WaitingForSlot\<close>, with the slots of the callers still held. \<open>m\<close> carries
  the values bound to the INSERT; the id of the stored message is set from the forward.
\<close>

fun process_file_upload ::
  "nat \<Rightarrow> (nat \<Rightarrow> forward_result) \<Rightarrow> nat \<Rightarrow> database \<Rightarrow> user_data \<Rightarrow> int \<Rightarrow> upload_meta
     \<Rightarrow> event list \<times> database \<times> user_data \<times> upload_outcome" where
  "process_file_upload 0 fwd k db ud gid m = ([], db, ud, WaitingForSlot)"
| "process_file_upload (Suc free) fwd k db ud gid m =
     (case fwd k of
        Forwarded mid \<Rightarrow>
          (let m' = m\<lparr>um_storage_message_id := mid\<rparr>;
               tx = upload_txn_trace db gid m'
           in case register_upload db gid m' of
                Inr (next_serial, db') \<Rightarrow>
                  ([SemAcquire, Forward] @ tx @ [SemRelease],
                   db', finally_clear ud, Saved next_serial)
              | Inl e \<Rightarrow>
                  ([SemAcquire, Forward] @ tx @ [SemRelease],
                   db, finally_clear ud, SaveFailed))
      | FloodWait retry_after \<Rightarrow>
          (case process_file_upload free fwd (Suc k) db ud gid m of
             (tr, db', ud', WaitingForSlot) \<Rightarrow>
               ([SemAcquire, Forward, Sleep retry_after] @ tr, db', ud', WaitingForSlot)
           | (tr, db', ud', out) \<Rightarrow>
               ([SemAcquire, Forward, Sleep retry_after] @ tr @ [SemRelease],
                db', finally_clear ud', out))
      | ForwardError \<Rightarrow>
          ([SemAcquire, Forward, SemRelease], db, finally_clear ud, SaveFailed))"

subsection \<open>\<open>extract_file_data\<close>, \<open>_create_new_group\<close> and \<open>file_handler\<close>\<close>

definition MAX_FILE_SIZE :: int where
  "MAX_FILE_SIZE = 2000 * 1024 * 1024"

definition UPLOAD_CONCURRENCY :: nat where
  "UPLOAD_CONCURRENCY = 5"

text \<open>The attributes of a Telegram file object, and of a message, that the code reads.\<close>

record file_obj =
  fo_file_id :: string
  fo_file_unique_id :: string
  fo_file_size :: "int option"
  fo_file_name :: "string option"

record message =
  msg_text :: "string option"
  msg_document :: "file_obj option"
  msg_video :: "file_obj option"
  msg_audio :: "file_obj option"
  msg_photo :: "file_obj list"
  msg_voice :: "file_obj option"
  msg_video_note :: "file_obj option"

text \<open>\<open>file_obj.file_name or f"{file_type}_{file_obj.file_unique_id[:8]}"\<close>\<close>

definition name_or_default :: "file_obj \<Rightarrow> string \<Rightarrow> string" where
  "name_or_default fo ftype =
     (case fo_file_name fo of
        Some n \<Rightarrow> if n \<noteq> [] then n else ftype @ ''_'' @ take 8 (fo_file_unique_id fo)
      | None \<Rightarrow> ftype @ ''_'' @ take 8 (fo_file_unique_id fo))"

definition extract_file_data :: "message \<Rightarrow> file_obj option \<times> string \<times> string \<times> int \<times> string" where
  "extract_file_data msg =
     (let (file_obj, ftype, fname) =
        (case msg_document msg of
           Some fo \<Rightarrow> (Some fo, ''document'', name_or_default fo ''document'')
         | None \<Rightarrow>
        (case msg_video msg of
           Some fo \<Rightarrow> (Some fo, ''video'', name_or_default fo ''video'')
         | None \<Rightarrow>
        (case msg_audio msg of
           Some fo \<Rightarrow> (Some fo, ''audio'', name_or_default fo ''audio'')
         | None \<Rightarrow>
        (if msg_photo msg \<noteq> []
           then (Some (last (msg_photo msg)), ''photo'',
                 ''photo_'' @ take 8 (fo_file_unique_id (last (msg_photo msg))) @ ''.jpg'')
         else
        (case msg_voice msg of
           Some fo \<Rightarrow> (Some fo, ''voice'',
                       ''voice_'' @ take 8 (fo_file_unique_id fo) @ ''.ogg'')
         | None \<Rightarrow>
        (case msg_video_note msg of
           Some fo \<Rightarrow> (Some fo, ''video_note'',
                       ''video_note_'' @ take 8 (fo_file_unique_id fo) @ ''.mp4'')
         | None \<Rightarrow> (None, '''', '''')))))))
      in case file_obj of
           None \<Rightarrow> (None, ftype, fname, 0, '''')
         | Some fo \<Rightarrow>
             (Some fo, ftype, fname,
              (case fo_file_size fo of None \<Rightarrow> 0 | Some n \<Rightarrow> n),
              fo_file_unique_id fo))"

text \<open>
  \<open>str.strip()\<close> on the characters Python counts as white space among the ASCII ones;
  text is modelled as ASCII throughout.
\<close>

definition is_space :: "char \<Rightarrow> bool" where
  "is_space c \<longleftrightarrow> c \<in> set [CHR '' '', CHR 0x09, CHR 0x0A, CHR 0x0B, CHR 0x0C, CHR 0x0D,
                            CHR 0x1C, CHR 0x1D, CHR 0x1E, CHR 0x1F]"

definition strip :: "string \<Rightarrow> string" where
  "strip s = rev (dropWhile is_space (rev (dropWhile is_space s)))"

datatype group_reply = InvalidGroupName | GroupCreated | GroupExists | GroupError

definition create_new_group ::
  "database \<Rightarrow> user_data \<Rightarrow> int \<Rightarrow> string \<Rightarrow> database \<times> user_data \<times> group_reply" where
  "create_new_group db ud user_id text =
     (let group_name = strip text;
          ud' = ud\<lparr>awaiting_group_name := False\<rparr>
      in if group_name = [] \<or> length group_name > 50 then (db, ud', InvalidGroupName)
         else case insert_group db group_name user_id of
                Inr db' \<Rightarrow> (db', ud', GroupCreated)
              | Inl UniqueViolation \<Rightarrow> (db, ud', GroupExists)
              | Inl e \<Rightarrow> (db, ud', GroupError))"

datatype file_reply =
    NotAuthorized
  | NewGroup group_reply
  | UnsupportedFileType
  | FileTooLarge
  | Uploaded upload_outcome
  | SelectGroupFirst

text \<open>
  \<open>authorized\<close> is the result of \<open>is_user_authorized\<close>. \<open>if upload_group_id:\<close> is
  Python's truth test: neither \<open>None\<close> nor 0.
\<close>

definition file_handler ::
  "bool \<Rightarrow> nat \<Rightarrow> (nat \<Rightarrow> forward_result) \<Rightarrow> database \<Rightarrow> user_data
     \<Rightarrow> int \<Rightarrow> string option \<Rightarrow> message
     \<Rightarrow> event list \<times> database \<times> user_data \<times> file_reply" where
  "file_handler authorized free fwd db ud user_id username msg =
     (if \<not> authorized then ([], db, ud, NotAuthorized)
      else if awaiting_group_name ud \<and> msg_text msg \<noteq> None \<and> msg_text msg \<noteq> Some []
        then (case create_new_group db ud user_id (the (msg_text msg)) of
                (db', ud', r) \<Rightarrow> ([], db', ud', NewGroup r))
      else if upload_group_id ud \<noteq> None \<and> upload_group_id ud \<noteq> Some 0
        then (case extract_file_data msg of
                (None, ftype, fname, fsize, uid) \<Rightarrow> ([], db, ud, UnsupportedFileType)
              | (Some fo, ftype, fname, fsize, uid) \<Rightarrow>
                  if fsize > MAX_FILE_SIZE then ([], db, ud, FileTooLarge)
                  else (case process_file_upload free fwd 0 db ud (the (upload_group_id ud))
                               \<lparr>um_unique_id = uid, um_file_name = fname,
                                um_file_type = ftype, um_file_size = fsize,
                                um_telegram_file_id = fo_file_id fo,
                                um_uploader_id = user_id,
                                um_uploader_username = username,
                                um_storage_message_id = 0\<rparr> of
                          (tr, db', ud', out) \<Rightarrow> (tr, db', ud', Uploaded out)))
      else ([], db, ud, SelectGroupFirst))"

subsection \<open>\<open>_handle_shared_link\<close>\<close>

datatype link_reply =
    InvalidOrExpired
  | FileSent file_row string
  | FileNotFound
  | GroupForwarded "string option" "file_row list"
  | GroupEmpty
  | ErrorProcessing
  | AwaitingConnection

text \<open>
  The loop over the files of a group link: each file is handled inside
  \<open>async with self.upload_semaphore\<close>. Inside the block come the copy (a failed
  copy is logged and skipped) and then the pause \<open>asyncio.sleep(BULK_UPLOAD_DELAY)\<close>;
  the slot is given back after the pause.
\<close>

fun forward_group_files :: "file_row list \<Rightarrow> event list" where
  "forward_group_files [] = []"
| "forward_group_files (f # fs) =
     [SemAcquire, CopyMessage (storage_message_id f), SleepBulkDelay, SemRelease]
     @ forward_group_files fs"

text \<open>
  The handler takes a connection from \<open>DB_POOL\<close> when it holds none and keeps it to
  its end; it runs its statements on it with no \<open>conn.transaction()\<close> block around
  them. Before every copy it calls \<open>get_file_caption\<close>, whose first action is
  \<open>DB_POOL.acquire()\<close> for a second connection (for \<open>caption_disabled\<close> of the
  user, or in \<open>get_caption_setting\<close> for \<open>bot_settings\<close>), given back before the
  copy. \<open>spare\<close> is the number of connections the pool can still hand out while the
  handler holds its own: with none, that acquire suspends, the handler still holding
  its connection (and, in the loop of a group link, its slot), and the handler sends
  no further answer. \<open>copy_ok mid\<close> tells whether \<open>copy_message\<close> of the stored
  message \<open>mid\<close> succeeds; in the file branch its exception reaches the outer
  \<open>except\<close>.
\<close>

definition handle_shared_link ::
  "nat \<Rightarrow> (int \<Rightarrow> bool) \<Rightarrow> database \<Rightarrow> string \<Rightarrow> event list \<times> database \<times> link_reply" where
  "handle_shared_link spare copy_ok db code =
     (case select_active_link db code of
        None \<Rightarrow> ([Sql SelectLink], db, InvalidOrExpired)
      | Some link_data \<Rightarrow>
          (case increment_clicks db (l_id link_data) of
             Inl e \<Rightarrow> ([Sql SelectLink, Sql UpdateClicks], db, ErrorProcessing)
           | Inr db1 \<Rightarrow>
               (case link_type link_data of
                  FileLink \<Rightarrow>
                    (case select_file_with_group db1 (l_file_id link_data) of
                       Some (file_info, group_name) \<Rightarrow>
                         if spare = 0
                         then ([Sql SelectLink, Sql UpdateClicks, Sql SelectFile],
                               db1, AwaitingConnection)
                         else ([Sql SelectLink, Sql UpdateClicks, Sql SelectFile,
                                CopyMessage (storage_message_id file_info)],
                               db1,
                               if copy_ok (storage_message_id file_info)
                               then FileSent file_info group_name else ErrorProcessing)
                     | None \<Rightarrow>
                         ([Sql SelectLink, Sql UpdateClicks, Sql SelectFile],
                          db1, FileNotFound))
                | GroupLink \<Rightarrow>
                    (let group_files = select_group_files db1 (l_group_id link_data)
                     in if group_files \<noteq> []
                        then (if spare = 0
                              then ([Sql SelectLink, Sql UpdateClicks, Sql SelectGroupFiles,
                                     Sql SelectGroupName, SemAcquire],
                                    db1, AwaitingConnection)
                              else ([Sql SelectLink, Sql UpdateClicks, Sql SelectGroupFiles,
                                     Sql SelectGroupName] @ forward_group_files group_files,
                                    db1,
                                    GroupForwarded (select_group_name db1 (l_group_id link_data))
                                                   group_files))
                        else ([Sql SelectLink, Sql UpdateClicks, Sql SelectGroupFiles],
                              db1, GroupEmpty)))))"







subsection \<open>\<open>_perform_file_delete\<close> and \<open>_perform_group_delete\<close>\<close>

datatype delete_reply =
    FileNotFoundOrDeleted
  | FileDeleted
  | FileDeleteError
  | GroupNotFound
  | GroupDeleted nat nat
  | GroupDeleteError



text \<open>
  \<open>del_ok mid\<close> tells whether \<open>delete_message\<close> of the stored message succeeds; the
  count of the reply is the number of successes.
\<close>

fun delete_messages :: "int list \<Rightarrow> event list" where
  "delete_messages [] = []"
| "delete_messages (mid # mids) =
     [DeleteMessage mid, SleepDeletePause] @ delete_messages mids"

definition perform_group_delete ::
  "(int \<Rightarrow> bool) \<Rightarrow> database \<Rightarrow> int \<Rightarrow> string \<Rightarrow> event list \<times> database \<times> delete_reply" where
  "perform_group_delete del_ok db user gname =
     (let message_ids = select_message_ids db user gname;
          (n, db') = delete_group db user gname
      in if n = 0
         then ([TxBegin, Sql SelectMessageIds, Sql DeleteGroup, TxCommit], db', GroupNotFound)
         else ([TxBegin, Sql SelectMessageIds, Sql DeleteGroup, TxCommit]
                 @ delete_messages message_ids,
               db',
               GroupDeleted (length (filter del_ok message_ids)) (length message_ids)))"

section \<open>Link codes\<close>

text \<open>
  \<open>generate_id\<close> is \<open>base64.urlsafe_b64encode(uuid.uuid4().bytes).rstrip(b'=')
  .decode('utf-8')[:12]\<close>. Bytes are \<open>8 word\<close>. \<open>uuid.uuid4()\<close> takes 16 bytes from
  \<open>os.urandom\<close> and stamps the version and the variant into them: the high four bits
  of byte 6 become \<open>0100\<close> and the high two bits of byte 8 become \<open>10\<close>. The random
  bytes are the argument \<open>r\<close>.
\<close>

definition uuid4_bytes :: "8 word list \<Rightarrow> 8 word list" where
  "uuid4_bytes r = r[6 := (r ! 6 AND 0x0F) OR 0x40, 8 := (r ! 8 AND 0x3F) OR 0x80]"

definition b64url_alphabet :: string where
  "b64url_alphabet = ''ABCDEFGHIJKLMNOPQRSTUVWXYZabcdefghijklmnopqrstuvwxyz0123456789-_''"

definition b64char :: "nat \<Rightarrow> char" where
  "b64char n = b64url_alphabet ! n"

text \<open>
  Three bytes give four six-bit digits; the last one or two bytes are padded with
  \<open>=\<close> to four characters.
\<close>

fun urlsafe_b64encode :: "8 word list \<Rightarrow> string" where
  "urlsafe_b64encode [] = []"
| "urlsafe_b64encode [a] =
     [b64char (unat a div 4), b64char (unat a mod 4 * 16), CHR ''='', CHR ''='']"
| "urlsafe_b64encode [a, b] =
     [b64char (unat a div 4), b64char (unat a mod 4 * 16 + unat b div 16),
      b64char (unat b mod 16 * 4), CHR ''='']"
| "urlsafe_b64encode (a # b # c # bs) =
     [b64char (unat a div 4), b64char (unat a mod 4 * 16 + unat b div 16),
      b64char (unat b mod 16 * 4 + unat c div 64), b64char (unat c mod 64)]
     @ urlsafe_b64encode bs"

definition rstrip_pad :: "string \<Rightarrow> string" where
  "rstrip_pad s = rev (dropWhile (\<lambda>c. c = CHR ''='') (rev s))"

definition generate_id :: "8 word list \<Rightarrow> string" where
  "generate_id r = take 12 (rstrip_pad (urlsafe_b64encode (uuid4_bytes r)))"

text \<open>
  Reading a code back, as \<open>base64.urlsafe_b64decode\<close> does for whole groups of four
  characters: the digit of a character is its position in the alphabet, and four digits
  give three bytes. It is the yardstick for what the code carries of the random value.
\<close>

definition b64url_index :: "char \<Rightarrow> nat" where
  "b64url_index c = length (takeWhile (\<lambda>x. x \<noteq> c) b64url_alphabet)"

fun urlsafe_b64decode :: "string \<Rightarrow> 8 word list" where
  "urlsafe_b64decode (c0 # c1 # c2 # c3 # cs) =
     [of_nat (b64url_index c0 * 4 + b64url_index c1 div 16),
      of_nat (b64url_index c1 mod 16 * 16 + b64url_index c2 div 4),
      of_nat (b64url_index c2 mod 4 * 64 + b64url_index c3)]
     @ urlsafe_b64decode cs"
| "urlsafe_b64decode cs = []"

subsection \<open>\<open>_create_link\<close>\<close>

datatype link_result = LinkCode string database | LinkRaised db_error | WaitingForConnection

text \<open>
  \<open>rnd k\<close> is the random value of the \<open>k\<close>-th call of \<open>generate_id\<close>. The INSERT runs
  inside \<open>async with DB_POOL.acquire()\<close>, and on \<open>UniqueViolationError\<close> the function
  calls itself from inside that block: the retry takes a further connection of the pool
  (\<open>max_size=10\<close>) while the caller keeps its own. \<open>free\<close> is the number of connections
  the call can take without another task returning one; with none left the \<open>acquire\<close>
  of the retry suspends. Any other error of the INSERT is raised to the caller.
\<close>

definition DB_POOL_max_size :: nat where
  "DB_POOL_max_size = 10"

fun create_link ::
  "nat \<Rightarrow> (nat \<Rightarrow> 8 word list) \<Rightarrow> nat \<Rightarrow> database \<Rightarrow> int option \<Rightarrow> int option
     \<Rightarrow> link_kind \<Rightarrow> int \<Rightarrow> link_result" where
  "create_link 0 rnd k db file_id group_id kind owner_id = WaitingForConnection"
| "create_link (Suc free) rnd k db file_id group_id kind owner_id =
     (let link_code = generate_id (rnd k)
      in case insert_link db link_code file_id group_id kind owner_id of
           Inr db' \<Rightarrow> LinkCode link_code db'
         | Inl UniqueViolation \<Rightarrow>
             create_link free rnd (Suc k) db file_id group_id kind owner_id
         | Inl e \<Rightarrow> LinkRaised e)"

section \<open>Search\<close>

text \<open>
  \<open>f.file_name ILIKE $2\<close> with \<open>$2 = f"%{query}%"\<close>. In a LIKE pattern \<open>%\<close> matches any
  run of characters, \<open>_\<close> any one character, and a backslash makes the character after
  it stand for itself; ILIKE compares without regard to case, here on the ASCII letters.
\<close>

fun like_match :: "string \<Rightarrow> string \<Rightarrow> bool" where
  "like_match [] t = (t = [])"
| "like_match (p # ps) [] = (p = CHR ''%'' \<and> like_match ps [])"
| "like_match (p # ps) (c # cs) =
     (if p = CHR ''%'' then like_match ps (c # cs) \<or> like_match (p # ps) cs
      else if p = CHR ''_'' then like_match ps cs
      else if p = CHR 0x5C then
        (case ps of [] \<Rightarrow> False | q # qs \<Rightarrow> q = c \<and> like_match qs cs)
      else p = c \<and> like_match ps cs)"

definition ascii_lower :: "char \<Rightarrow> char" where
  "ascii_lower c =
     (if CHR ''A'' \<le> c \<and> c \<le> CHR ''Z'' then char_of (of_char c + (32::nat)) else c)"

definition ilike :: "string \<Rightarrow> string \<Rightarrow> bool" where
  "ilike text pattern = like_match (map ascii_lower pattern) (map ascii_lower text)"

text \<open>
  \<open>SELECT f.file_name, f.serial_number, g.name as group_name, f.file_size
  FROM files f JOIN groups g ON f.group_id = g.id
  WHERE g.owner_id = $1 AND f.file_name ILIKE $2
  ORDER BY g.name, f.serial_number LIMIT 25\<close>. Names are ordered as character lists.
\<close>

record search_row =
  sr_file_name :: string
  sr_serial_number :: int
  sr_group_name :: string
  sr_file_size :: int

definition search_matches :: "database \<Rightarrow> int \<Rightarrow> string \<Rightarrow> search_row list" where
  "search_matches db user_id search_term =
     concat (map (\<lambda>f. map (\<lambda>g. \<lparr>sr_file_name = file_name f,
                                 sr_serial_number = serial_number f,
                                 sr_group_name = g_name g,
                                 sr_file_size = file_size f\<rparr>)
                          (filter (\<lambda>g. f_group_id f = g_id g \<and> g_owner_id g = user_id
                                       \<and> ilike (file_name f) search_term)
                                  (groups db)))
                 (files db))"

definition search_query :: "database \<Rightarrow> int \<Rightarrow> string \<Rightarrow> search_row list" where
  "search_query db user_id search_term =
     take 25 (sort_key (\<lambda>r. (sr_group_name r, sr_serial_number r))
                       (search_matches db user_id search_term))"

datatype search_reply = SearchUsage | NoResults | SearchResults "search_row list" bool

text \<open>\<open>" ".join(context.args)\<close>\<close>

fun join_args :: "string list \<Rightarrow> string" where
  "join_args [] = []"
| "join_args [a] = a"
| "join_args (a # b # as) = a @ '' '' @ join_args (b # as)"

text \<open>
  \<open>search_handler\<close> for an authorized user. The boolean of the reply is the note
  "Showing top 25 results", added when \<open>len(results) == 25\<close>.
\<close>

definition search_handler :: "database \<Rightarrow> int \<Rightarrow> string list \<Rightarrow> search_reply" where
  "search_handler db user_id args =
     (if args = [] then SearchUsage
      else let query = join_args args;
               search_term = ''%'' @ query @ ''%'';
               results = search_query db user_id search_term
           in if results = [] then NoResults
              else SearchResults results (length results = 25))"

text \<open>
  The search as the specification words it: the files whose name contains the query
  as a substring, letter case aside, over all groups of the owner.
\<close>

definition contains_ci :: "string \<Rightarrow> string \<Rightarrow> bool" where
  "contains_ci name query \<longleftrightarrow> sublist (map ascii_lower query) (map ascii_lower name)"

definition spec_search_matches :: "database \<Rightarrow> int \<Rightarrow> string \<Rightarrow> search_row list" where
  "spec_search_matches db owner query =
     concat (map (\<lambda>f. map (\<lambda>g. \<lparr>sr_file_name = file_name f,
                                 sr_serial_number = serial_number f,
                                 sr_group_name = g_name g,
                                 sr_file_size = file_size f\<rparr>)
                          (filter (\<lambda>g. f_group_id f = g_id g \<and> g_owner_id g = owner
                                       \<and> contains_ci (file_name f) query)
                                  (groups db)))
                 (files db))"

text \<open>The characters with a meaning of their own in a LIKE pattern.\<close>

definition like_special :: "char \<Rightarrow> bool" where
  "like_special c \<longleftrightarrow> c = CHR ''%'' \<or> c = CHR ''_'' \<or> c = CHR 0x5C"

section \<open>Sequences of operations and overlapping uploads\<close>

subsection \<open>Operations one after another\<close>

text \<open>
  The operations that write to the three tables, each with the arguments its handler
  passes. An operation that raises leaves the database as it was, as the rollback (or
  the failed single statement) does.
\<close>

datatype db_op =
    OpCreateGroup string int
  | OpUpload int upload_meta
  | OpDeleteFile int string int
  | OpDeleteGroup int string
  | OpCreateLink string "int option" "int option" link_kind int
  | OpResolve string
  | OpRevoke string int

fun apply_op :: "db_op \<Rightarrow> database \<Rightarrow> database" where
  "apply_op (OpCreateGroup name owner) db =
     (case insert_group db name owner of Inl e \<Rightarrow> db | Inr db' \<Rightarrow> db')"
| "apply_op (OpUpload gid m) db =
     (case register_upload db gid m of Inl e \<Rightarrow> db | Inr (s, db') \<Rightarrow> db')"
| "apply_op (OpDeleteFile user gname serial) db =
     (case file_delete_txn db user gname serial of Inl e \<Rightarrow> db | Inr (r, db') \<Rightarrow> db')"
| "apply_op (OpDeleteGroup user gname) db = snd (delete_group db user gname)"
| "apply_op (OpCreateLink code fid gid kind owner) db =
     (case insert_link db code fid gid kind owner of Inl e \<Rightarrow> db | Inr db' \<Rightarrow> db')"
| "apply_op (OpResolve code) db =
     (case select_active_link db code of
        None \<Rightarrow> db
      | Some l \<Rightarrow> (case increment_clicks db (l_id l) of Inl e \<Rightarrow> db | Inr db' \<Rightarrow> db'))"
| "apply_op (OpRevoke code user) db = snd (revoke_link db code user)"

definition run_ops :: "db_op list \<Rightarrow> database" where
  "run_ops ops = fold apply_op ops empty_db"

text \<open>The counters of every group against its rows in \<open>files\<close>.\<close>

definition counters_ok :: "database \<Rightarrow> bool" where
  "counters_ok db \<longleftrightarrow>
     (\<forall>g\<in>set (groups db).
        total_files g = int (length (group_files db (g_id g))) \<and>
        total_size g = sum_list (map file_size (group_files db (g_id g))))"

text \<open>Every target a link names exists.\<close>

definition links_ok :: "database \<Rightarrow> bool" where
  "links_ok db \<longleftrightarrow>
     (\<forall>l\<in>set (file_links db).
        (case l_file_id l of None \<Rightarrow> True | Some f \<Rightarrow> f \<in> f_id ` set (files db)) \<and>
        (case l_group_id l of None \<Rightarrow> True | Some g \<Rightarrow> g \<in> g_id ` set (groups db)))"

text \<open>
  What the schema enforces on keys: the primary keys of \<open>groups\<close> and \<open>files\<close>
  are distinct and come from their sequences, \<open>link_code\<close> is unique, and the group
  of every file exists.
\<close>

definition keys_ok :: "database \<Rightarrow> bool" where
  "keys_ok db \<longleftrightarrow>
     distinct (map g_id (groups db)) \<and> (\<forall>g\<in>set (groups db). g_id g \<le> groups_seq db) \<and>
     distinct (map f_id (files db)) \<and> (\<forall>f\<in>set (files db). f_id f \<le> files_seq db) \<and>
     distinct (map link_code (file_links db)) \<and>
     (\<forall>f\<in>set (files db). f_group_id f \<in> g_id ` set (groups db))"

definition store_ok :: "database \<Rightarrow> bool" where
  "store_ok db \<longleftrightarrow> keys_ok db \<and> counters_ok db \<and> links_ok db"

subsection \<open>Uploads that overlap\<close>

text \<open>
  The code sets no isolation level, so its transactions run at PostgreSQL's default,
  READ COMMITTED: a statement sees what is committed when it runs, and what a
  transaction writes is seen by the others once it commits. The upload transaction takes
  no lock on the group (\<open>SELECT ... FOR UPDATE\<close> or the like) before it reads
  \<open>MAX(serial_number)\<close>. Against other uploads it therefore runs in two steps: the
  read of the next serial, and later the INSERT and UPDATE with the commit (an INSERT
  that meets a concurrent row with its key waits for that transaction and then fails
  on the unique index). A schedule lists the steps of the tasks in the order they
  happen; a step that is not the task's turn does nothing.
\<close>

datatype task_state = NotStarted | HasRead int | Finished "db_error + int"

datatype sched_step = ReadSerial nat | InsertCommit nat

definition write_upload :: "database \<Rightarrow> int \<Rightarrow> int \<Rightarrow> upload_meta \<Rightarrow> db_error + database" where
  "write_upload db gid next_serial m =
     (case insert_file db gid next_serial m of
        Inl e \<Rightarrow> Inl e
      | Inr db1 \<Rightarrow> update_group_stats db1 gid 1 (um_file_size m))"

fun sched_exec ::
  "(int \<times> upload_meta) list \<Rightarrow> sched_step \<Rightarrow> database \<times> task_state list
     \<Rightarrow> database \<times> task_state list" where
  "sched_exec reqs (ReadSerial i) (db, ts) =
     (if i < length reqs \<and> i < length ts \<and> ts ! i = NotStarted
      then (db, ts[i := (case select_next_serial db (fst (reqs ! i)) of
                           Inl e \<Rightarrow> Finished (Inl e)
                         | Inr s \<Rightarrow> HasRead s)])
      else (db, ts))"
| "sched_exec reqs (InsertCommit i) (db, ts) =
     (if i < length reqs \<and> i < length ts
      then (case ts ! i of
              HasRead s \<Rightarrow>
                (case write_upload db (fst (reqs ! i)) s (snd (reqs ! i)) of
                   Inl e \<Rightarrow> (db, ts[i := Finished (Inl e)])
                 | Inr db' \<Rightarrow> (db', ts[i := Finished (Inr s)]))
            | _ \<Rightarrow> (db, ts))
      else (db, ts))"

definition run_schedule ::
  "(int \<times> upload_meta) list \<Rightarrow> sched_step list \<Rightarrow> database \<Rightarrow> database \<times> task_state list" where
  "run_schedule reqs sched db =
     fold (sched_exec reqs) sched (db, replicate (length reqs) NotStarted)"

text \<open>The serial numbers of the uploads that were saved.\<close>

definition saved_serial :: "task_state \<Rightarrow> int list" where
  "saved_serial t = (case t of Finished (Inr s) \<Rightarrow> [s] | _ \<Rightarrow> [])"

definition assigned_serials :: "task_state list \<Rightarrow> int list" where
  "assigned_serials ts = concat (map saved_serial ts)"

text \<open>The schedule in which each upload ends before the next begins.\<close>

definition serial_schedule :: "nat \<Rightarrow> sched_step list" where
  "serial_schedule n = concat (map (\<lambda>i. [ReadSerial i, InsertCommit i]) [0..<n])"

text \<open>
  What holds of the store and the tasks during any schedule of uploads to a group
  \<open>g\<close>: the serials present are \<open>1..n\<close> without repetition, a serial that was read
  and not yet inserted is at most \<open>n + 1\<close>, and the serials of the saved uploads are
  the ones present.
\<close>

definition sched_inv :: "int \<Rightarrow> (int \<times> upload_meta) list \<Rightarrow> database \<times> task_state list \<Rightarrow> bool" where
  "sched_inv g reqs w \<longleftrightarrow>
     (case w of (db, ts) \<Rightarrow>
        length ts = length reqs \<and>
        distinct (group_serials db g) \<and>
        set (group_serials db g) = {1..int (length (group_serials db g))} \<and>
        (\<forall>i<length ts. \<forall>s. ts ! i = HasRead s \<longrightarrow>
             1 \<le> s \<and> s \<le> int (length (group_serials db g)) + 1) \<and>
        set (assigned_serials ts) = set (group_serials db g) \<and>
        length (assigned_serials ts) = length (group_serials db g))"

text \<open>
  A list of upload requests for the group \<open>g\<close> fits the store when none of them can
  fail on anything but the serial: the group exists, the \<open>unique_id\<close>s are new and
  differ from each other, the sizes are not negative, and the serials and the counters
  stay in the ranges of their columns.
\<close>

definition uploads_fit :: "int \<Rightarrow> database \<Rightarrow> (int \<times> upload_meta) list \<Rightarrow> bool" where
  "uploads_fit g db reqs \<longleftrightarrow>
     (\<forall>r\<in>set reqs. fst r = g \<and> 0 \<le> um_file_size (snd r)
                     \<and> int8 (um_file_size (snd r))
                     \<and> int8 (um_uploader_id (snd r))
                     \<and> int8 (um_storage_message_id (snd r))
                     \<and> um_unique_id (snd r) \<notin> unique_id ` set (files db)) \<and>
     distinct (map (\<lambda>r. um_unique_id (snd r)) reqs) \<and>
     int4 g \<and> g \<in> g_id ` set (groups db) \<and>
     set (group_serials db g) = {1..int (length (group_serials db g))} \<and>
     int (length (group_serials db g)) + int (length reqs) \<le> 2147483647 \<and>
     (\<forall>gr\<in>set (groups db). g_id gr = g \<longrightarrow>
        0 \<le> total_files gr \<and> total_files gr + int (length reqs) \<le> 2147483647 \<and>
        0 \<le> total_size gr \<and>
        total_size gr + sum_list (map (\<lambda>r. um_file_size (snd r)) reqs)
          \<le> 9223372036854775807)"

subsection \<open>Uploads and deletions that overlap\<close>










section \<open>A small store for the examples\<close>

definition demo_meta :: "string \<Rightarrow> string \<Rightarrow> int \<Rightarrow> int \<Rightarrow> upload_meta" where
  "demo_meta uid name sz mid =
     \<lparr>um_unique_id = uid, um_file_name = name, um_file_type = ''document'',
      um_file_size = sz, um_telegram_file_id = ''tg-'' @ uid, um_uploader_id = 1,
      um_uploader_username = None, um_storage_message_id = mid\<rparr>"

definition file_a :: upload_meta where
  "file_a = demo_meta ''uidA'' ''fileA.mkv'' 2000000 101"

definition file_b :: upload_meta where
  "file_b = demo_meta ''uidB'' ''fileB.mkv'' 3000000 102"

text \<open>The database after the group "Movies" of owner 1 has been created.\<close>

definition movies_db :: database where
  "movies_db =
     \<lparr>groups = [\<lparr>g_id = 1, g_name = ''Movies'', g_owner_id = 1,
                 total_files = 0, total_size = 0\<rparr>],
      files = [], file_links = [], groups_seq = 1, files_seq = 0, links_seq = 0\<rparr>"

definition selected_movies :: user_data where
  "selected_movies =
     \<lparr>upload_group_id = Some 1, upload_group_name = Some ''Movies'',
      is_bulk_upload = False, awaiting_group_name = False\<rparr>"

definition big_document :: message where
  "big_document =
     \<lparr>msg_text = None,
      msg_document = Some \<lparr>fo_file_id = ''tg-big'', fo_file_unique_id = ''uidBig'',
                           fo_file_size = Some 3000000000,
                           fo_file_name = Some ''big.iso''\<rparr>,
      msg_video = None, msg_audio = None, msg_photo = [], msg_voice = None,
      msg_video_note = None\<rparr>"

text \<open>The store with a link to the group, under the code of the all-zero random value.\<close>

definition linked_db :: database where
  "linked_db =
     movies_db\<lparr>file_links :=
                  [\<lparr>l_id = 1, link_code = ''AAAAAAAAQACA'', l_file_id = None,
                    l_group_id = Some 1, link_type = GroupLink, l_owner_id = 1,
                    clicks = 0, is_active = True\<rparr>],
                links_seq := 1\<rparr>"

text \<open>Two random sources: one repeats the value behind the code already taken forever,
  the other six times and then delivers a fresh one.\<close>

definition always_colliding :: "nat \<Rightarrow> 8 word list" where
  "always_colliding k = replicate 16 0"

definition six_collisions :: "nat \<Rightarrow> 8 word list" where
  "six_collisions k = (if k < 6 then replicate 16 0 else replicate 16 255)"

fun issued_code :: "link_result \<Rightarrow> string option" where
  "issued_code (LinkCode c db) = Some c"
| "issued_code r = None"

text \<open>Three content stores: one signals a rate limit once, one four times, one always;
  the retry-after is 7 seconds and the stored message gets the id 101.\<close>

definition flood_once :: "nat \<Rightarrow> forward_result" where
  "flood_once k = (if k < 1 then FloodWait 7 else Forwarded 101)"

definition four_floods :: "nat \<Rightarrow> forward_result" where
  "four_floods k = (if k < 4 then FloodWait 7 else Forwarded 101)"

definition always_flood :: "nat \<Rightarrow> forward_result" where
  "always_flood k = FloodWait 7"

definition upload_events ::
  "event list \<times> database \<times> user_data \<times> upload_outcome \<Rightarrow> event list" where
  "upload_events r = fst r"

definition upload_result ::
  "event list \<times> database \<times> user_data \<times> upload_outcome \<Rightarrow> upload_outcome" where
  "upload_result r = snd (snd (snd r))"

text \<open>The store after fileA has been uploaded to "Movies" and a link to it issued.\<close>

definition shared_db :: database where
  "shared_db =
     \<lparr>groups = [\<lparr>g_id = 1, g_name = ''Movies'', g_owner_id = 1,
                 total_files = 1, total_size = 2000000\<rparr>],
      files = [new_file_row 1 1 1 file_a],
      file_links = [\<lparr>l_id = 1, link_code = ''AAAAAAAAQACA'', l_file_id = Some 1,
                      l_group_id = None, link_type = FileLink, l_owner_id = 1,
                      clicks = 0, is_active = True\<rparr>],
      groups_seq = 1, files_seq = 1, links_seq = 1\<rparr>"

definition copy_always :: "int \<Rightarrow> bool" where
  "copy_always mid = True"


text \<open>A store with one file named \<open>axb\<close>, and one with exactly 25 files named
  \<open>doc.txt\<close>, all in the group "Movies" of owner 1.\<close>

definition underscore_db :: database where
  "underscore_db =
     movies_db\<lparr>files := [new_file_row 1 1 1 (demo_meta ''uidX'' ''axb'' 10 103)],
                files_seq := 1\<rparr>"

definition db25 :: database where
  "db25 =
     movies_db\<lparr>files := map (\<lambda>i. new_file_row (int i) 1 (int i)
                                   (demo_meta (replicate i CHR ''u'') ''doc.txt'' 1 (int i)))
                            [1..<26],
                files_seq := 25\<rparr>"

fun shown_note :: "search_reply \<Rightarrow> bool" where
  "shown_note (SearchResults rows note) = note"
| "shown_note r = False"

fun shown_rows :: "search_reply \<Rightarrow> search_row list" where
  "shown_rows (SearchResults rows note) = rows"
| "shown_rows r = []"

text \<open>The scenario of the specification: create "Movies", upload fileA and fileB,
  link fileA, resolve the link, delete fileA.\<close>

definition scenario_ops :: "db_op list" where
  "scenario_ops =
     [OpCreateGroup ''Movies'' 1, OpUpload 1 file_a, OpUpload 1 file_b,
      OpCreateLink ''AAAAAAAAQACA'' (Some 1) None FileLink 1,
      OpResolve ''AAAAAAAAQACA'',
      OpDeleteFile 1 ''Movies'' 1]"

text \<open>The same store with a link to the group and one to fileB, before any deletion.\<close>

definition linked_ops :: "db_op list" where
  "linked_ops =
     [OpCreateGroup ''Movies'' 1, OpUpload 1 file_a, OpUpload 1 file_b,
      OpCreateLink ''AAAAAAAAQACA'' None (Some 1) GroupLink 1,
      OpCreateLink ''________T_-_'' (Some 2) None FileLink 1]"

definition link_answer :: "event list \<times> database \<times> link_reply \<Rightarrow> link_reply" where
  "link_answer r = snd (snd r)"

text \<open>Two uploads to "Movies" that both read the next serial before either inserts.\<close>

definition two_uploads :: "(int \<times> upload_meta) list" where
  "two_uploads = [(1, file_a), (1, file_b)]"

definition racing_schedule :: "sched_step list" where
  "racing_schedule = [ReadSerial 0, ReadSerial 1, InsertCommit 0, InsertCommit 1]"











section \<open>What the statements return\<close>

lemma fold_max_Max: "fold max ss (s::int) = Max (set (s # ss))"
  using Max.set_eq_fold [of s ss] by simp

lemma max_serial_Max:
  "group_serials db gid \<noteq> [] \<Longrightarrow> max_serial db gid = Max (set (group_serials db gid))"
  by (cases "group_serials db gid") (simp_all add: max_serial_def fold_max_Max)


lemma register_upload_InrD:
  assumes "register_upload db gid m = Inr (s, db')"
  shows "select_next_serial db gid = Inr s"
    and "\<exists>db1. insert_file db gid s m = Inr db1
           \<and> update_group_stats db1 gid 1 (um_file_size m) = Inr db'"
  using assms by (auto simp: register_upload_def split: sum.splits)

lemma insert_file_InrD:
  assumes "insert_file db gid s m = Inr db1"
  shows "db1 = db\<lparr>files := files db @ [new_file_row (files_seq db + 1) gid s m],
                   files_seq := files_seq db + 1\<rparr>"
    and "um_unique_id m \<notin> unique_id ` set (files db)"
    and "s \<notin> set (group_serials db gid)"
    and "gid \<in> g_id ` set (groups db)"
    and "int4 s" and "int8 (um_file_size m)"
  using assms by (auto simp: insert_file_def split: if_splits)

lemma update_group_stats_InrD:
  assumes "update_group_stats db gid dn dsz = Inr db'"
  shows "db' = db\<lparr>groups := map (bump_group gid dn dsz) (groups db)\<rparr>"
    and "\<forall>g\<in>set (groups db). g_id g = gid \<longrightarrow>
            int4 (total_files g + dn) \<and> int8 (total_size g + dsz)"
  using assms by (auto simp: update_group_stats_def list_all_iff split: if_splits)

lemma fetchrow_SomeD: "fetchrow rows = Some r \<Longrightarrow> r \<in> set rows"
  by (auto simp: fetchrow_def split: list.splits)


lemma map_bump_ids [simp]: "map g_id (map (bump_group gid dn dsz) gs) = map g_id gs"
  by (induction gs) (simp_all add: bump_group_def)

lemma set_bump_ids [simp]: "g_id ` set (map (bump_group gid dn dsz) gs) = g_id ` set gs"
  using map_bump_ids [of gid dn dsz gs] by (metis set_map)

lemma insert_group_InrD:
  assumes "insert_group db name owner = Inr db'"
  shows "db' = db\<lparr>groups := groups db @
                     [\<lparr>g_id = groups_seq db + 1, g_name = name, g_owner_id = owner,
                       total_files = 0, total_size = 0\<rparr>],
                   groups_seq := groups_seq db + 1\<rparr>"
  using assms by (auto simp: insert_group_def split: if_splits)

lemma insert_link_InrD:
  assumes "insert_link db code fid gid kind owner = Inr db'"
  shows "db' = db\<lparr>file_links := file_links db @
                     [\<lparr>l_id = links_seq db + 1, link_code = code, l_file_id = fid,
                       l_group_id = gid, link_type = kind, l_owner_id = owner,
                       clicks = 0, is_active = True\<rparr>],
                   links_seq := links_seq db + 1\<rparr>"
    and "code \<notin> link_code ` set (file_links db)"
    and "case fid of None \<Rightarrow> True | Some f \<Rightarrow> f \<in> f_id ` set (files db)"
    and "case gid of None \<Rightarrow> True | Some g \<Rightarrow> g \<in> g_id ` set (groups db)"
  using assms by (auto simp: insert_link_def split: if_splits option.splits)

lemma register_upload_db:
  assumes "register_upload db gid m = Inr (s, db')"
  shows "db' = db\<lparr>files := files db @ [new_file_row (files_seq db + 1) gid s m],
                   files_seq := files_seq db + 1,
                   groups := map (bump_group gid 1 (um_file_size m)) (groups db)\<rparr>"
    and "gid \<in> g_id ` set (groups db)"
proof -
  from register_upload_InrD(2) [OF assms] obtain db1 where
    ins: "insert_file db gid s m = Inr db1" and
    upd: "update_group_stats db1 gid 1 (um_file_size m) = Inr db'"
    by blast
  show "db' = db\<lparr>files := files db @ [new_file_row (files_seq db + 1) gid s m],
                   files_seq := files_seq db + 1,
                   groups := map (bump_group gid 1 (um_file_size m)) (groups db)\<rparr>"
    using insert_file_InrD(1) [OF ins] update_group_stats_InrD(1) [OF upd] by simp
  show "gid \<in> g_id ` set (groups db)"
    using insert_file_InrD(4) [OF ins] .
qed

lemma select_file_for_delete_SomeD:
  "select_file_for_delete db user gname serial = Some (f, g) \<Longrightarrow>
     f \<in> set (files db) \<and> g \<in> set (groups db) \<and> f_group_id f = g_id g
     \<and> g_owner_id g = user \<and> g_name g = gname \<and> serial_number f = serial"
  unfolding select_file_for_delete_def owned_files_def by (drule fetchrow_SomeD) auto

lemma file_delete_txn_SomeD:
  assumes "file_delete_txn db user gname serial = Inr (Some f, db')"
  shows "f \<in> set (files db)"
    and "f_group_id f \<in> g_id ` set (groups db)"
    and "db' = db\<lparr>files := filter (\<lambda>x. f_id x \<noteq> f_id f) (files db),
                   file_links := filter (\<lambda>l. l_file_id l \<noteq> Some (f_id f)) (file_links db),
                   groups := map (bump_group (f_group_id f) (- 1) (- file_size f)) (groups db)\<rparr>"
    and "serial_number f = serial"
proof -
  from assms obtain g where
    sel: "select_file_for_delete db user gname serial = Some (f, g)" and
    upd: "update_group_stats (delete_file_by_id db (f_id f)) (g_id g) (- 1) (- file_size f) = Inr db'"
    by (auto simp: file_delete_txn_def split: if_splits option.splits sum.splits)
  note d = select_file_for_delete_SomeD [OF sel]
  show "f \<in> set (files db)" using d by simp
  show "f_group_id f \<in> g_id ` set (groups db)" using d by auto
  show "serial_number f = serial" using d by simp
  show "db' = db\<lparr>files := filter (\<lambda>x. f_id x \<noteq> f_id f) (files db),
                   file_links := filter (\<lambda>l. l_file_id l \<noteq> Some (f_id f)) (file_links db),
                   groups := map (bump_group (f_group_id f) (- 1) (- file_size f)) (groups db)\<rparr>"
    using update_group_stats_InrD(1) [OF upd] d by (simp add: delete_file_by_id_def)
qed

lemma file_delete_txn_NoneD:
  "file_delete_txn db user gname serial = Inr (None, db') \<Longrightarrow> db' = db"
  by (auto simp: file_delete_txn_def split: if_splits option.splits sum.splits)

lemma select_active_link_None:
  "select_active_link db code = None \<longleftrightarrow>
     \<not> (\<exists>l\<in>set (file_links db). link_code l = code \<and> is_active l)"
  by (auto simp: select_active_link_def find_None_iff)


lemma increment_clicks_InrD:
  "increment_clicks db lid = Inr db1 \<Longrightarrow>
     db1 = db\<lparr>file_links :=
               map (\<lambda>l. if l_id l = lid then l\<lparr>clicks := clicks l + 1\<rparr> else l)
                   (file_links db)\<rparr>"
  by (auto simp: increment_clicks_def split: if_splits)





section \<open>The store stays consistent\<close>

lemma delete_group_db:
  "snd (delete_group db user gname) =
     db\<lparr>groups := filter (\<lambda>g. \<not> (g_owner_id g = user \<and> g_name g = gname)) (groups db),
        files := filter (\<lambda>f. f_group_id f \<notin> set (deleted_group_ids db user gname)) (files db),
        file_links := filter (link_survives (deleted_group_ids db user gname)
                                (cascaded_file_ids db (deleted_group_ids db user gname)))
                             (file_links db)\<rparr>"
  by (simp add: delete_group_def Let_def)

lemma deleted_group_ids_iff:
  "gid \<in> set (deleted_group_ids db user gname) \<longleftrightarrow>
     (\<exists>g\<in>set (groups db). g_id g = gid \<and> g_owner_id g = user \<and> g_name g = gname)"
  by (auto simp: deleted_group_ids_def)

lemma cascaded_file_ids_iff:
  "fid \<in> set (cascaded_file_ids db gone) \<longleftrightarrow>
     (\<exists>f\<in>set (files db). f_id f = fid \<and> f_group_id f \<in> set gone)"
  by (auto simp: cascaded_file_ids_def)

subsection \<open>Keys\<close>

lemma g_id_bump_group [simp]: "g_id (bump_group gid dn dsz g) = g_id g"
  by (simp add: bump_group_def)

lemma g_id_comp_bump_group [simp]: "g_id \<circ> bump_group gid dn dsz = g_id"
  by (rule ext) simp

lemma g_id_image_bump_group [simp]: "g_id ` bump_group gid dn dsz ` S = g_id ` S"
  by (simp add: image_image)

lemma link_code_comp_clicks [simp]:
  "link_code \<circ> (\<lambda>l. if l_id l = lid then l\<lparr>clicks := clicks l + 1\<rparr> else l) = link_code"
  by (rule ext) simp

lemma keys_ok_insert_group:
  assumes "keys_ok db" "insert_group db name owner = Inr db'"
  shows "keys_ok db'"
  using assms(1)
  by (fastforce simp: insert_group_InrD [OF assms(2)] keys_ok_def)

lemma keys_ok_register_upload:
  assumes "keys_ok db" "register_upload db gid m = Inr (s, db')"
  shows "keys_ok db'"
  using assms(1) register_upload_db(2) [OF assms(2)]
  by (fastforce simp: register_upload_db(1) [OF assms(2)] keys_ok_def new_file_row_def)

lemma keys_ok_file_delete:
  assumes "keys_ok db" "file_delete_txn db user gname serial = Inr (r, db')"
  shows "keys_ok db'"
proof (cases r)
  case None
  then show ?thesis using assms file_delete_txn_NoneD by blast
next
  case (Some f)
  show ?thesis
    using assms(1)
    by (auto simp: file_delete_txn_SomeD(3) [OF assms(2) [unfolded Some]] keys_ok_def
          distinct_map_filter)
qed

lemma keys_ok_delete_group:
  assumes "keys_ok db"
  shows "keys_ok (snd (delete_group db user gname))"
proof -
  let ?keep = "filter (\<lambda>g. \<not> (g_owner_id g = user \<and> g_name g = gname)) (groups db)"
  have fk: "f_group_id f \<in> g_id ` set ?keep"
    if "f \<in> set (files db)" "f_group_id f \<notin> set (deleted_group_ids db user gname)" for f
  proof -
    from assms that(1) obtain g where g: "g \<in> set (groups db)" "g_id g = f_group_id f"
      by (auto simp: keys_ok_def)
    with that(2) have "\<not> (g_owner_id g = user \<and> g_name g = gname)"
      by (auto simp: deleted_group_ids_iff)
    with g show ?thesis by force
  qed
  have "\<forall>f\<in>set (filter (\<lambda>f. f_group_id f \<notin> set (deleted_group_ids db user gname))
                          (files db)). f_group_id f \<in> g_id ` set ?keep"
    using fk by simp
  moreover have "distinct (map g_id ?keep)" "\<forall>g\<in>set ?keep. g_id g \<le> groups_seq db"
    using assms by (auto simp: keys_ok_def distinct_map_filter)
  moreover have
    "distinct (map f_id (filter (\<lambda>f. f_group_id f \<notin> set (deleted_group_ids db user gname))
                                (files db)))"
    "\<forall>f\<in>set (filter (\<lambda>f. f_group_id f \<notin> set (deleted_group_ids db user gname))
                         (files db)). f_id f \<le> files_seq db"
    "distinct (map link_code
        (filter (link_survives (deleted_group_ids db user gname)
                   (cascaded_file_ids db (deleted_group_ids db user gname)))
                (file_links db)))"
    using assms by (auto simp: keys_ok_def distinct_map_filter)
  ultimately show ?thesis
    unfolding delete_group_db keys_ok_def by simp
qed

lemma keys_ok_insert_link:
  assumes "keys_ok db" "insert_link db code fid gid kind owner = Inr db'"
  shows "keys_ok db'"
  using assms(1) insert_link_InrD(2) [OF assms(2)]
  by (auto simp: insert_link_InrD(1) [OF assms(2)] keys_ok_def)

lemma map_link_code_clicks [simp]:
  "map link_code (map (\<lambda>l. if l_id l = lid then l\<lparr>clicks := clicks l + 1\<rparr> else l) ls)
     = map link_code ls"
  by (induction ls) simp_all

lemma keys_ok_increment_clicks:
  assumes "keys_ok db" "increment_clicks db lid = Inr db'"
  shows "keys_ok db'"
  using assms(1)
  by (simp add: increment_clicks_InrD [OF assms(2)] keys_ok_def)

lemma keys_ok_revoke_link:
  assumes "keys_ok db"
  shows "keys_ok (snd (revoke_link db code user))"
  using assms
  by (auto simp: revoke_link_def keys_ok_def distinct_map_filter)

subsection \<open>Link targets\<close>

lemma links_ok_same_targets:
  assumes "links_ok db"
    and "set (file_links db') \<subseteq> set (file_links db)"
    and "f_id ` set (files db) \<subseteq> f_id ` set (files db')"
    and "g_id ` set (groups db) \<subseteq> g_id ` set (groups db')"
  shows "links_ok db'"
  unfolding links_ok_def
proof
  fix l assume "l \<in> set (file_links db')"
  then have "l \<in> set (file_links db)" using assms(2) by blast
  with assms(1) have
    "case l_file_id l of None \<Rightarrow> True | Some f \<Rightarrow> f \<in> f_id ` set (files db)"
    "case l_group_id l of None \<Rightarrow> True | Some g \<Rightarrow> g \<in> g_id ` set (groups db)"
    by (auto simp: links_ok_def)
  then show "(case l_file_id l of None \<Rightarrow> True | Some f \<Rightarrow> f \<in> f_id ` set (files db')) \<and>
        (case l_group_id l of None \<Rightarrow> True | Some g \<Rightarrow> g \<in> g_id ` set (groups db'))"
    using assms(3,4) by (auto split: option.splits)
qed

lemma links_ok_insert_group:
  assumes "links_ok db" "insert_group db name owner = Inr db'"
  shows "links_ok db'"
  by (rule links_ok_same_targets [OF assms(1)])
     (auto simp: insert_group_InrD [OF assms(2)])

lemma links_ok_register_upload:
  assumes "links_ok db" "register_upload db gid m = Inr (s, db')"
  shows "links_ok db'"
  by (rule links_ok_same_targets [OF assms(1)])
     (auto simp: register_upload_db(1) [OF assms(2)])

lemma links_ok_file_delete:
  assumes "links_ok db" "file_delete_txn db user gname serial = Inr (r, db')"
  shows "links_ok db'"
proof (cases r)
  case None
  then show ?thesis using assms file_delete_txn_NoneD by blast
next
  case (Some f)
  note d = file_delete_txn_SomeD(3) [OF assms(2) [unfolded Some]]
  show ?thesis
    unfolding links_ok_def
  proof
    fix l assume "l \<in> set (file_links db')"
    then have l: "l \<in> set (file_links db)" "l_file_id l \<noteq> Some (f_id f)"
      by (auto simp: d)
    with assms(1) have
      a: "case l_file_id l of None \<Rightarrow> True | Some x \<Rightarrow> x \<in> f_id ` set (files db)" and
      b: "case l_group_id l of None \<Rightarrow> True | Some g \<Rightarrow> g \<in> g_id ` set (groups db)"
      by (auto simp: links_ok_def)
    have "case l_file_id l of None \<Rightarrow> True | Some x \<Rightarrow> x \<in> f_id ` set (files db')"
      using a l(2) by (auto simp: d split: option.splits)
    moreover have "case l_group_id l of None \<Rightarrow> True | Some g \<Rightarrow> g \<in> g_id ` set (groups db')"
      using b by (auto simp: d split: option.splits)
    ultimately show "(case l_file_id l of None \<Rightarrow> True | Some f \<Rightarrow> f \<in> f_id ` set (files db')) \<and>
        (case l_group_id l of None \<Rightarrow> True | Some g \<Rightarrow> g \<in> g_id ` set (groups db'))"
      by simp
  qed
qed

lemma links_ok_delete_group:
  assumes "links_ok db"
  shows "links_ok (snd (delete_group db user gname))"
  unfolding links_ok_def
proof
  let ?gone = "deleted_group_ids db user gname"
  let ?db' = "snd (delete_group db user gname)"
  fix l assume "l \<in> set (file_links ?db')"
  then have l: "l \<in> set (file_links db)"
    and sv: "link_survives ?gone (cascaded_file_ids db ?gone) l"
    by (auto simp: delete_group_db)
  from assms l have
    a: "case l_file_id l of None \<Rightarrow> True | Some x \<Rightarrow> x \<in> f_id ` set (files db)" and
    b: "case l_group_id l of None \<Rightarrow> True | Some g \<Rightarrow> g \<in> g_id ` set (groups db)"
    by (auto simp: links_ok_def)
  have "case l_file_id l of None \<Rightarrow> True | Some x \<Rightarrow> x \<in> f_id ` set (files ?db')"
  proof (cases "l_file_id l")
    case None
    then show ?thesis by simp
  next
    case (Some x)
    with a obtain f where f: "f \<in> set (files db)" "f_id f = x" by auto
    from sv Some have "x \<notin> set (cascaded_file_ids db ?gone)"
      by (simp add: link_survives_def)
    with f have "f_group_id f \<notin> set ?gone" by (auto simp: cascaded_file_ids_iff)
    with f show ?thesis by (force simp: Some delete_group_db)
  qed
  moreover have "case l_group_id l of None \<Rightarrow> True | Some g \<Rightarrow> g \<in> g_id ` set (groups ?db')"
  proof (cases "l_group_id l")
    case None
    then show ?thesis by simp
  next
    case (Some x)
    with b obtain g where g: "g \<in> set (groups db)" "g_id g = x" by auto
    from sv Some have "x \<notin> set ?gone" by (simp add: link_survives_def)
    with g have "\<not> (g_owner_id g = user \<and> g_name g = gname)"
      by (auto simp: deleted_group_ids_iff)
    with g show ?thesis by (force simp: Some delete_group_db)
  qed
  ultimately show "(case l_file_id l of None \<Rightarrow> True | Some f \<Rightarrow> f \<in> f_id ` set (files ?db')) \<and>
        (case l_group_id l of None \<Rightarrow> True | Some g \<Rightarrow> g \<in> g_id ` set (groups ?db'))"
    by simp
qed

lemma links_ok_insert_link:
  assumes "links_ok db" "insert_link db code fid gid kind owner = Inr db'"
  shows "links_ok db'"
  using assms(1) insert_link_InrD(3,4) [OF assms(2)]
  by (auto simp: insert_link_InrD(1) [OF assms(2)] links_ok_def split: option.splits)

lemma links_ok_increment_clicks:
  assumes "links_ok db" "increment_clicks db lid = Inr db'"
  shows "links_ok db'"
  using assms(1)
  by (auto simp: increment_clicks_InrD [OF assms(2)] links_ok_def split: option.splits)

lemma links_ok_revoke_link:
  assumes "links_ok db"
  shows "links_ok (snd (revoke_link db code user))"
  by (rule links_ok_same_targets [OF assms]) (auto simp: revoke_link_def)


subsection \<open>Counters\<close>

lemma counters_ok_same_tables:
  "groups db' = groups db \<Longrightarrow> files db' = files db \<Longrightarrow> counters_ok db' = counters_ok db"
  by (simp add: counters_ok_def group_files_def)

lemma counters_ok_insert_group:
  assumes "keys_ok db" "counters_ok db" "insert_group db name owner = Inr db'"
  shows "counters_ok db'"
proof -
  have "filter (\<lambda>f. f_group_id f = groups_seq db + 1) (files db) = []"
  proof -
    have "f_group_id f \<noteq> groups_seq db + 1" if "f \<in> set (files db)" for f
    proof -
      from assms(1) that obtain g where "g \<in> set (groups db)" "g_id g = f_group_id f"
        by (auto simp: keys_ok_def)
      moreover from assms(1) this(1) have "g_id g \<le> groups_seq db"
        by (simp add: keys_ok_def)
      ultimately show ?thesis by simp
    qed
    then show ?thesis by (simp add: filter_empty_conv)
  qed
  then show ?thesis
    using assms(2)
    by (auto simp: insert_group_InrD [OF assms(3)] counters_ok_def group_files_def)
qed

lemma counters_ok_register_upload:
  assumes "counters_ok db" "register_upload db gid m = Inr (s, db')"
  shows "counters_ok db'"
  using assms(1)
  by (auto simp: register_upload_db(1) [OF assms(2)] counters_ok_def group_files_def
        bump_group_def new_file_row_def)

lemma filter_out_one_length:
  "distinct (map f_id fs) \<Longrightarrow> f \<in> set fs \<Longrightarrow>
     int (length (filter P fs)) =
       int (length (filter P (filter (\<lambda>x. f_id x \<noteq> f_id f) fs))) + (if P f then 1 else 0)"
proof (induction fs)
  case Nil
  then show ?case by simp
next
  case (Cons a fs)
  show ?case
  proof (cases "a = f")
    case True
    then have "f_id f \<notin> f_id ` set fs" using Cons.prems(1) by simp
    then have "\<forall>x\<in>set fs. f_id x \<noteq> f_id f" by (metis imageI)
    then have "filter (\<lambda>x. f_id x \<noteq> f_id f) fs = fs" by simp
    then show ?thesis using True by simp
  next
    case False
    then have "f \<in> set fs" using Cons.prems(2) by simp
    moreover then have "f_id a \<noteq> f_id f" using Cons.prems(1) by auto
    ultimately show ?thesis using Cons.IH Cons.prems(1) by (auto split: if_splits)
  qed
qed

lemma filter_out_one_size:
  "distinct (map f_id fs) \<Longrightarrow> f \<in> set fs \<Longrightarrow>
     sum_list (map file_size (filter P fs)) =
       sum_list (map file_size (filter P (filter (\<lambda>x. f_id x \<noteq> f_id f) fs)))
         + (if P f then file_size f else 0)"
proof (induction fs)
  case Nil
  then show ?case by simp
next
  case (Cons a fs)
  show ?case
  proof (cases "a = f")
    case True
    then have "f_id f \<notin> f_id ` set fs" using Cons.prems(1) by simp
    then have "\<forall>x\<in>set fs. f_id x \<noteq> f_id f" by (metis imageI)
    then have "filter (\<lambda>x. f_id x \<noteq> f_id f) fs = fs" by simp
    then show ?thesis using True by simp
  next
    case False
    then have "f \<in> set fs" using Cons.prems(2) by simp
    moreover then have "f_id a \<noteq> f_id f" using Cons.prems(1) by auto
    ultimately show ?thesis using Cons.IH Cons.prems(1) by (auto split: if_splits)
  qed
qed

lemma counters_ok_file_delete:
  assumes "keys_ok db" "counters_ok db" "file_delete_txn db user gname serial = Inr (r, db')"
  shows "counters_ok db'"
proof (cases r)
  case None
  then show ?thesis using assms file_delete_txn_NoneD by blast
next
  case (Some f)
  note d = file_delete_txn_SomeD [OF assms(3) [unfolded Some]]
  have dist: "distinct (map f_id (files db))" using assms(1) by (simp add: keys_ok_def)
  note len = filter_out_one_length [OF dist d(1)]
  note siz = filter_out_one_size [OF dist d(1)]
  show ?thesis
    unfolding counters_ok_def
  proof
    fix g' assume "g' \<in> set (groups db')"
    then obtain g where g: "g \<in> set (groups db)"
      and g': "g' = bump_group (f_group_id f) (- 1) (- file_size f) g"
      by (auto simp: d(3))
    from assms(2) g have
      c: "total_files g = int (length (filter (\<lambda>x. f_group_id x = g_id g) (files db)))"
         "total_size g = sum_list (map file_size (filter (\<lambda>x. f_group_id x = g_id g) (files db)))"
      by (auto simp: counters_ok_def group_files_def)
    have gf: "group_files db' gid =
                filter (\<lambda>x. f_group_id x = gid) (filter (\<lambda>x. f_id x \<noteq> f_id f) (files db))"
      for gid by (simp add: group_files_def d(3))
    show "total_files g' = int (length (group_files db' (g_id g'))) \<and>
          total_size g' = sum_list (map file_size (group_files db' (g_id g')))"
      using c len [of "\<lambda>x. f_group_id x = g_id g"] siz [of "\<lambda>x. f_group_id x = g_id g"]
      by (auto simp: g' gf bump_group_def)
  qed
qed

lemma counters_ok_delete_group:
  assumes "keys_ok db" "counters_ok db"
  shows "counters_ok (snd (delete_group db user gname))"
  unfolding counters_ok_def
proof
  let ?gone = "deleted_group_ids db user gname"
  let ?db' = "snd (delete_group db user gname)"
  fix g assume "g \<in> set (groups ?db')"
  then have g: "g \<in> set (groups db)" "\<not> (g_owner_id g = user \<and> g_name g = gname)"
    by (auto simp: delete_group_db)
  have "g_id g \<notin> set ?gone"
  proof
    assume "g_id g \<in> set ?gone"
    then obtain h where h: "h \<in> set (groups db)" "g_id h = g_id g"
      "g_owner_id h = user" "g_name h = gname"
      by (auto simp: deleted_group_ids_iff)
    from assms(1) have "inj_on g_id (set (groups db))"
      by (simp add: keys_ok_def distinct_map)
    with h(1,2) g(1) have "h = g" by (auto dest: inj_onD)
    with h g(2) show False by simp
  qed
  then have "group_files ?db' (g_id g) = group_files db (g_id g)"
    by (auto simp: group_files_def delete_group_db intro: filter_cong)
  then show "total_files g = int (length (group_files ?db' (g_id g))) \<and>
        total_size g = sum_list (map file_size (group_files ?db' (g_id g)))"
    using assms(2) g(1) by (simp add: counters_ok_def)
qed

subsection \<open>Every operation keeps the store consistent\<close>

lemma store_ok_apply_op:
  assumes "store_ok db"
  shows "store_ok (apply_op op db)"
proof -
  from assms have k: "keys_ok db" and c: "counters_ok db" and l: "links_ok db"
    by (simp_all add: store_ok_def)
  show ?thesis
  proof (cases op)
    case (OpCreateGroup name owner)
    show ?thesis
    proof (cases "insert_group db name owner")
      case (Inl e)
      then show ?thesis using assms OpCreateGroup by simp
    next
      case (Inr db')
      then show ?thesis
        using OpCreateGroup keys_ok_insert_group [OF k Inr]
          counters_ok_insert_group [OF k c Inr] links_ok_insert_group [OF l Inr]
        by (simp add: store_ok_def)
    qed
  next
    case (OpUpload gid m)
    show ?thesis
    proof (cases "register_upload db gid m")
      case (Inl e)
      then show ?thesis using assms OpUpload by simp
    next
      case (Inr r)
      obtain s db' where r: "r = (s, db')" by (cases r)
      note h = Inr [unfolded r]
      show ?thesis
        using OpUpload h keys_ok_register_upload [OF k h]
          counters_ok_register_upload [OF c h] links_ok_register_upload [OF l h]
        by (simp add: store_ok_def)
    qed
  next
    case (OpDeleteFile user gname serial)
    show ?thesis
    proof (cases "file_delete_txn db user gname serial")
      case (Inl e)
      then show ?thesis using assms OpDeleteFile by simp
    next
      case (Inr r)
      obtain f db' where r: "r = (f, db')" by (cases r)
      note h = Inr [unfolded r]
      show ?thesis
        using OpDeleteFile h keys_ok_file_delete [OF k h]
          counters_ok_file_delete [OF k c h] links_ok_file_delete [OF l h]
        by (simp add: store_ok_def)
    qed
  next
    case (OpDeleteGroup user gname)
    then show ?thesis
      using keys_ok_delete_group [OF k, of user gname]
        counters_ok_delete_group [OF k c, of user gname]
        links_ok_delete_group [OF l, of user gname]
      by (simp add: store_ok_def)
  next
    case (OpCreateLink code fid gid kind owner)
    show ?thesis
    proof (cases "insert_link db code fid gid kind owner")
      case (Inl e)
      then show ?thesis using assms OpCreateLink by simp
    next
      case (Inr db')
      have "counters_ok db'"
        using c counters_ok_same_tables [of db' db]
        by (simp add: insert_link_InrD(1) [OF Inr])
      then show ?thesis
        using OpCreateLink Inr keys_ok_insert_link [OF k Inr] links_ok_insert_link [OF l Inr]
        by (simp add: store_ok_def)
    qed
  next
    case (OpResolve code)
    show ?thesis
    proof (cases "select_active_link db code")
      case None
      then show ?thesis using assms OpResolve by simp
    next
      case (Some lk)
      show ?thesis
      proof (cases "increment_clicks db (l_id lk)")
        case (Inl e)
        then show ?thesis using assms OpResolve Some by simp
      next
        case (Inr db')
        have "counters_ok db'"
          using c counters_ok_same_tables [of db' db]
          by (simp add: increment_clicks_InrD [OF Inr])
        then show ?thesis
          using OpResolve Some Inr keys_ok_increment_clicks [OF k Inr]
            links_ok_increment_clicks [OF l Inr]
          by (simp add: store_ok_def)
      qed
    qed
  next
    case (OpRevoke code user)
    have "counters_ok (snd (revoke_link db code user))"
      using c counters_ok_same_tables [of "snd (revoke_link db code user)" db]
      by (simp add: revoke_link_def)
    then show ?thesis
      using OpRevoke keys_ok_revoke_link [OF k, of code user]
        links_ok_revoke_link [OF l, of code user]
      by (simp add: store_ok_def)
  qed
qed

lemma store_ok_empty: "store_ok empty_db"
  by (simp add: store_ok_def keys_ok_def counters_ok_def links_ok_def empty_db_def)

lemma store_ok_fold: "store_ok db \<Longrightarrow> store_ok (fold apply_op ops db)"
  by (induction ops arbitrary: db) (simp_all add: store_ok_apply_op)

lemma store_ok_run_ops: "store_ok (run_ops ops)"
  unfolding run_ops_def by (rule store_ok_fold [OF store_ok_empty])


section \<open>Uploads that overlap\<close>

lemma assigned_serials_length: "length (assigned_serials ts) \<le> length ts"
proof (induction ts)
  case Nil
  then show ?case by (simp add: assigned_serials_def)
next
  case (Cons t ts)
  then show ?case
    by (auto simp: assigned_serials_def saved_serial_def split: task_state.splits sum.splits)
qed

lemma assigned_serials_update:
  assumes "i < length ts"
  shows "assigned_serials (ts[i := t]) =
           concat (map saved_serial (take i ts)) @ saved_serial t
             @ concat (map saved_serial (drop (Suc i) ts))"
    and "assigned_serials ts =
           concat (map saved_serial (take i ts)) @ saved_serial (ts ! i)
             @ concat (map saved_serial (drop (Suc i) ts))"
proof -
  show "assigned_serials (ts[i := t]) =
           concat (map saved_serial (take i ts)) @ saved_serial t
             @ concat (map saved_serial (drop (Suc i) ts))"
    using assms by (simp add: assigned_serials_def upd_conv_take_nth_drop)
  have "ts = take i ts @ ts ! i # drop (Suc i) ts"
    using assms by (simp add: id_take_nth_drop [symmetric])
  then have "assigned_serials ts =
      assigned_serials (take i ts @ ts ! i # drop (Suc i) ts)" by simp
  then show "assigned_serials ts =
           concat (map saved_serial (take i ts)) @ saved_serial (ts ! i)
             @ concat (map saved_serial (drop (Suc i) ts))"
    by (simp add: assigned_serials_def)
qed

lemma assigned_serials_update_other:
  assumes "i < length ts" "saved_serial (ts ! i) = []" "saved_serial t = []"
  shows "assigned_serials (ts[i := t]) = assigned_serials ts"
  using assigned_serials_update(1) [OF assms(1), of t]
    assigned_serials_update(2) [OF assms(1)] assms(2,3) by simp

lemma assigned_serials_update_saved:
  assumes "i < length ts" "saved_serial (ts ! i) = []"
  shows "set (assigned_serials (ts[i := Finished (Inr s)])) = insert s (set (assigned_serials ts))"
    and "length (assigned_serials (ts[i := Finished (Inr s)])) = Suc (length (assigned_serials ts))"
  using assigned_serials_update(1) [OF assms(1), of "Finished (Inr s)"]
    assigned_serials_update(2) [OF assms(1)] assms(2)
  by (auto simp: saved_serial_def)

lemma max_serial_initial_segment:
  assumes "set (group_serials db g) = {1..int (length (group_serials db g))}"
  shows "max_serial db g = int (length (group_serials db g))"
proof (cases "group_serials db g")
  case Nil
  then show ?thesis by (simp add: max_serial_def)
next
  case (Cons s ss)
  then have ne: "group_serials db g \<noteq> []" by simp
  have "max_serial db g = Max {1..int (length (group_serials db g))}"
    using max_serial_Max [OF ne] assms by simp
  also have "\<dots> = int (length (group_serials db g))"
    using ne by (intro Max_eqI) (auto simp: Suc_le_eq)
  finally show ?thesis .
qed

lemma write_upload_InrD:
  assumes "write_upload db g s m = Inr db'"
  shows "group_serials db' g = group_serials db g @ [s]"
    and "s \<notin> set (group_serials db g)"
proof -
  from assms obtain db1 where
    ins: "insert_file db g s m = Inr db1" and
    upd: "update_group_stats db1 g 1 (um_file_size m) = Inr db'"
    by (auto simp: write_upload_def split: sum.splits)
  show "group_serials db' g = group_serials db g @ [s]"
    using insert_file_InrD(1) [OF ins] update_group_stats_InrD(1) [OF upd]
    by (simp add: group_serials_def group_files_def new_file_row_def)
  show "s \<notin> set (group_serials db g)"
    using insert_file_InrD(3) [OF ins] .
qed

lemma nth_update_HasRead:
  assumes "j < length ts" "\<forall>s. t \<noteq> HasRead s" "ts[i := t] ! j = HasRead s'"
  shows "ts ! j = HasRead s'"
  using assms by (cases "j = i") auto

lemma sched_inv_read:
  assumes g: "\<forall>r\<in>set reqs. fst r = g" and inv: "sched_inv g reqs (db, ts)"
  shows "sched_inv g reqs (sched_exec reqs (ReadSerial i) (db, ts))"
proof (cases "i < length reqs \<and> i < length ts \<and> ts ! i = NotStarted")
  case False
  then show ?thesis using inv by auto
next
  case True
  let ?S = "group_serials db g"
  let ?t = "case select_next_serial db (fst (reqs ! i)) of
              Inl e \<Rightarrow> Finished (Inl e) | Inr s \<Rightarrow> HasRead s"
  from inv have
    len: "length ts = length reqs" and
    seg: "set ?S = {1..int (length ?S)}" and
    rd: "\<forall>j<length ts. \<forall>s. ts ! j = HasRead s \<longrightarrow> 1 \<le> s \<and> s \<le> int (length ?S) + 1"
    by (simp_all add: sched_inv_def)
  have gi: "fst (reqs ! i) = g" using g True by simp
  have nsv: "saved_serial ?t = []"
    by (simp add: saved_serial_def split: sum.splits)
  have asg: "assigned_serials (ts[i := ?t]) = assigned_serials ts"
    using True nsv by (intro assigned_serials_update_other) (simp_all add: saved_serial_def)
  have new: "?t = HasRead s \<Longrightarrow> 1 \<le> s \<and> s \<le> int (length ?S) + 1" for s
    using max_serial_initial_segment [OF seg]
    by (auto simp: gi select_next_serial_def split: sum.splits if_splits)
  have rd': "\<forall>j<length (ts[i := ?t]). \<forall>s. ts[i := ?t] ! j = HasRead s \<longrightarrow>
               1 \<le> s \<and> s \<le> int (length ?S) + 1"
  proof (intro allI impI)
    fix j s assume j: "j < length (ts[i := ?t])" and h: "ts[i := ?t] ! j = HasRead s"
    show "1 \<le> s \<and> s \<le> int (length ?S) + 1"
    proof (cases "j = i")
      case True
      with j h have "?t = HasRead s" by simp
      then show ?thesis by (rule new)
    next
      case False
      with j h rd show ?thesis by simp
    qed
  qed
  have "sched_exec reqs (ReadSerial i) (db, ts) = (db, ts[i := ?t])"
    using True by simp
  then show ?thesis
    using inv rd' asg by (simp add: sched_inv_def)
qed

lemma sched_inv_write:
  assumes g: "\<forall>r\<in>set reqs. fst r = g" and inv: "sched_inv g reqs (db, ts)"
  shows "sched_inv g reqs (sched_exec reqs (InsertCommit i) (db, ts))"
proof (cases "i < length reqs \<and> i < length ts \<and> (\<exists>s. ts ! i = HasRead s)")
  case False
  then have "sched_exec reqs (InsertCommit i) (db, ts) = (db, ts)"
    by (auto split: task_state.splits)
  then show ?thesis using inv by simp
next
  case True
  then obtain s where i: "i < length reqs" "i < length ts" and s: "ts ! i = HasRead s"
    by blast
  let ?S = "group_serials db g"
  from inv have
    len: "length ts = length reqs" and
    dist: "distinct ?S" and
    seg: "set ?S = {1..int (length ?S)}" and
    rd: "\<forall>j<length ts. \<forall>s. ts ! j = HasRead s \<longrightarrow> 1 \<le> s \<and> s \<le> int (length ?S) + 1" and
    aset: "set (assigned_serials ts) = set ?S" and
    alen: "length (assigned_serials ts) = length ?S"
    by (simp_all add: sched_inv_def)
  have gi: "fst (reqs ! i) = g" using g i by simp
  have nsv: "saved_serial (ts ! i) = []" by (simp add: s saved_serial_def)
  show ?thesis
  proof (cases "write_upload db g s (snd (reqs ! i))")
    case (Inl e)
    have ex: "sched_exec reqs (InsertCommit i) (db, ts) = (db, ts[i := Finished (Inl e)])"
      using i s Inl by (simp add: gi)
    have asg: "assigned_serials (ts[i := Finished (Inl e)]) = assigned_serials ts"
      using i nsv by (intro assigned_serials_update_other) (simp_all add: saved_serial_def)
    have rd': "\<forall>j<length (ts[i := Finished (Inl e)]). \<forall>s'.
                 ts[i := Finished (Inl e)] ! j = HasRead s' \<longrightarrow>
                 1 \<le> s' \<and> s' \<le> int (length ?S) + 1"
    proof (intro allI impI)
      fix j s'
      assume j: "j < length (ts[i := Finished (Inl e)])"
        and h: "ts[i := Finished (Inl e)] ! j = HasRead s'"
      from j have j': "j < length ts" by simp
      have "ts ! j = HasRead s'" by (rule nth_update_HasRead [OF j' _ h]) simp
      with rd j' show "1 \<le> s' \<and> s' \<le> int (length ?S) + 1" by blast
    qed
    show ?thesis
      unfolding ex using inv rd' asg by (simp add: sched_inv_def)
  next
    case (Inr db')
    have ex: "sched_exec reqs (InsertCommit i) (db, ts) = (db', ts[i := Finished (Inr s)])"
      using i s Inr by (simp add: gi)
    note w = write_upload_InrD [OF Inr]
    from rd i s have b: "1 \<le> s" "s \<le> int (length ?S) + 1" by auto
    from w(2) seg b have sv: "s = int (length ?S) + 1" by auto
    have S': "group_serials db' g = ?S @ [s]" by (rule w(1))
    have d': "distinct (group_serials db' g)"
      using dist w(2) by (simp add: S')
    have seg': "set (group_serials db' g) = {1..int (length (group_serials db' g))}"
      using seg sv by (auto simp: S')
    have rd': "\<forall>j<length (ts[i := Finished (Inr s)]). \<forall>s'.
                 ts[i := Finished (Inr s)] ! j = HasRead s' \<longrightarrow>
                 1 \<le> s' \<and> s' \<le> int (length (group_serials db' g)) + 1"
    proof (intro allI impI)
      fix j s'
      assume j: "j < length (ts[i := Finished (Inr s)])"
        and h: "ts[i := Finished (Inr s)] ! j = HasRead s'"
      from j have j': "j < length ts" by simp
      have "ts ! j = HasRead s'" by (rule nth_update_HasRead [OF j' _ h]) simp
      with rd j' have "1 \<le> s' \<and> s' \<le> int (length ?S) + 1" by blast
      then show "1 \<le> s' \<and> s' \<le> int (length (group_serials db' g)) + 1"
        by (simp add: S')
    qed
    have aset': "set (assigned_serials (ts[i := Finished (Inr s)])) = set (group_serials db' g)"
      using assigned_serials_update_saved(1) [OF i(2) nsv, of s] aset by (simp add: S')
    have alen': "length (assigned_serials (ts[i := Finished (Inr s)]))
                   = length (group_serials db' g)"
      using assigned_serials_update_saved(2) [OF i(2) nsv, of s] alen by (simp add: S')
    show ?thesis
      unfolding ex using len d' seg' rd' aset' alen' by (simp add: sched_inv_def)
  qed
qed

lemma sched_inv_step:
  assumes "\<forall>r\<in>set reqs. fst r = g" and "sched_inv g reqs w"
  shows "sched_inv g reqs (sched_exec reqs st w)"
proof -
  obtain db ts where w: "w = (db, ts)" by (cases w)
  show ?thesis
    using assms sched_inv_read [of reqs g db ts] sched_inv_write [of reqs g db ts]
    unfolding w by (cases st) blast+
qed

lemma sched_inv_fold:
  assumes "\<forall>r\<in>set reqs. fst r = g"
  shows "sched_inv g reqs w \<Longrightarrow> sched_inv g reqs (fold (sched_exec reqs) sched w)"
  by (induction sched arbitrary: w) (simp_all add: sched_inv_step [OF assms])

lemma sched_inv_initial:
  assumes "group_files db g = []"
  shows "sched_inv g reqs (db, replicate (length reqs) NotStarted)"
proof -
  have "assigned_serials (replicate n NotStarted) = []" for n
    by (induction n) (simp_all add: assigned_serials_def saved_serial_def)
  then show ?thesis
    using assms by (simp add: sched_inv_def group_serials_def)
qed

lemma sum_sizes_nonneg:
  "\<forall>r\<in>set reqs. 0 \<le> um_file_size (snd r) \<Longrightarrow>
     0 \<le> sum_list (map (\<lambda>r. um_file_size (snd r)) reqs)"
  by (induction reqs) auto

lemma uploads_fit_step:
  assumes "uploads_fit g db (r # rest)"
  shows "\<exists>db'. register_upload db g (snd r) = Inr (int (length (group_serials db g)) + 1, db')
           \<and> uploads_fit g db' rest
           \<and> length (group_serials db' g) = Suc (length (group_serials db g))"
proof -
  let ?S = "group_serials db g"
  let ?n = "int (length ?S)"
  let ?m = "snd r"
  from assms have
    r: "fst r = g" "0 \<le> um_file_size ?m" "int8 (um_file_size ?m)" "int8 (um_uploader_id ?m)"
       "int8 (um_storage_message_id ?m)" "um_unique_id ?m \<notin> unique_id ` set (files db)" and
    rest: "\<forall>q\<in>set rest. fst q = g \<and> 0 \<le> um_file_size (snd q)
                     \<and> int8 (um_file_size (snd q))
                     \<and> int8 (um_uploader_id (snd q))
                     \<and> int8 (um_storage_message_id (snd q))
                     \<and> um_unique_id (snd q) \<notin> unique_id ` set (files db)" and
    dist: "um_unique_id ?m \<notin> (\<lambda>q. um_unique_id (snd q)) ` set rest"
          "distinct (map (\<lambda>q. um_unique_id (snd q)) rest)" and
    g: "int4 g" "g \<in> g_id ` set (groups db)" and
    seg: "set ?S = {1..?n}" and
    bound: "?n + 1 + int (length rest) \<le> 2147483647" and
    cnt: "\<forall>gr\<in>set (groups db). g_id gr = g \<longrightarrow>
        0 \<le> total_files gr \<and> total_files gr + 1 + int (length rest) \<le> 2147483647 \<and>
        0 \<le> total_size gr \<and>
        total_size gr + um_file_size ?m + sum_list (map (\<lambda>q. um_file_size (snd q)) rest)
          \<le> 9223372036854775807"
    by (auto simp: uploads_fit_def add.assoc)
  have nn: "0 \<le> sum_list (map (\<lambda>q. um_file_size (snd q)) rest)"
    using rest by (intro sum_sizes_nonneg) simp
  have sel: "select_next_serial db g = Inr (?n + 1)"
    using max_serial_initial_segment [OF seg] bound
    by (simp add: select_next_serial_def int4_def)
  let ?db1 = "db\<lparr>files := files db @ [new_file_row (files_seq db + 1) g (?n + 1) ?m],
                   files_seq := files_seq db + 1\<rparr>"
  have "?n + 1 \<notin> set ?S" using seg by simp
  then have ins: "insert_file db g (?n + 1) ?m = Inr ?db1"
    using r g bound by (simp add: insert_file_def int4_def)
  let ?db2 = "?db1\<lparr>groups := map (bump_group g 1 (um_file_size ?m)) (groups db)\<rparr>"
  have "\<forall>gr\<in>set (groups db). g_id gr = g \<longrightarrow>
          int4 (total_files gr + 1) \<and> int8 (total_size gr + um_file_size ?m)"
    using cnt nn r(2) by (auto simp: int4_def int8_def)
  then have upd: "update_group_stats ?db1 g 1 (um_file_size ?m) = Inr ?db2"
    by (simp add: update_group_stats_def list_all_iff)
  have reg: "register_upload db g ?m = Inr (?n + 1, ?db2)"
    by (simp add: register_upload_def sel ins upd)
  have S2: "group_serials ?db2 g = ?S @ [?n + 1]"
    by (simp add: group_serials_def group_files_def new_file_row_def)
  have fit: "uploads_fit g ?db2 rest"
    unfolding uploads_fit_def
  proof (intro conjI ballI impI)
    fix q assume q: "q \<in> set rest"
    with rest show "fst q = g" "0 \<le> um_file_size (snd q)" "int8 (um_file_size (snd q))"
      "int8 (um_uploader_id (snd q))" "int8 (um_storage_message_id (snd q))"
      by auto
    have "um_unique_id (snd q) \<noteq> um_unique_id ?m"
      using q dist(1) by (metis imageI)
    then show "um_unique_id (snd q) \<notin> unique_id ` set (files ?db2)"
      using rest q by (auto simp: new_file_row_def)
  next
    show "distinct (map (\<lambda>r. um_unique_id (snd r)) rest)" by (rule dist(2))
    show "int4 g" by (rule g(1))
    show "g \<in> g_id ` set (groups ?db2)" using g(2) by simp
    show "set (group_serials ?db2 g) = {1..int (length (group_serials ?db2 g))}"
      unfolding S2 using seg by auto
    show "int (length (group_serials ?db2 g)) + int (length rest) \<le> 2147483647"
      unfolding S2 using bound by simp
  next
    fix gr assume gr: "gr \<in> set (groups ?db2)" "g_id gr = g"
    then obtain g0 where g0: "g0 \<in> set (groups db)" "gr = bump_group g 1 (um_file_size ?m) g0"
      by auto
    with gr(2) have id0: "g_id g0 = g" by simp
    from cnt g0(1) id0 have c0:
      "0 \<le> total_files g0" "total_files g0 + 1 + int (length rest) \<le> 2147483647"
      "0 \<le> total_size g0"
      "total_size g0 + um_file_size ?m + sum_list (map (\<lambda>q. um_file_size (snd q)) rest)
          \<le> 9223372036854775807"
      by auto
    show "0 \<le> total_files gr" "total_files gr + int (length rest) \<le> 2147483647"
      "0 \<le> total_size gr"
      "total_size gr + sum_list (map (\<lambda>r. um_file_size (snd r)) rest) \<le> 9223372036854775807"
      using c0 r(2) by (simp_all add: g0(2) bump_group_def id0)
  qed
  show ?thesis
    using reg fit S2 by auto
qed

lemma sched_pair:
  assumes "i < length reqs" "i < length ts" "ts ! i = NotStarted" "fst (reqs ! i) = g"
    and "register_upload db g (snd (reqs ! i)) = Inr (s, db')"
  shows "sched_exec reqs (InsertCommit i) (sched_exec reqs (ReadSerial i) (db, ts))
           = (db', ts[i := Finished (Inr s)])"
proof -
  from assms(5) have sel: "select_next_serial db g = Inr s"
    and wr: "write_upload db g s (snd (reqs ! i)) = Inr db'"
    by (auto simp: register_upload_def write_upload_def split: sum.splits)
  have "sched_exec reqs (ReadSerial i) (db, ts) = (db, ts[i := HasRead s])"
    using assms(1-4) sel by simp
  then show ?thesis
    using assms(1,2,4) wr by simp
qed

lemma serial_schedule_from:
  assumes "uploads_fit g db (drop i reqs)" "i \<le> length reqs" "length ts = length reqs"
    and "\<forall>j. i \<le> j \<and> j < length reqs \<longrightarrow> ts ! j = NotStarted"
  shows "\<exists>db'. fold (sched_exec reqs)
                  (concat (map (\<lambda>i. [ReadSerial i, InsertCommit i]) [i..<length reqs]))
                  (db, ts)
          = (db', map (\<lambda>j. if j < i then ts ! j
                              else Finished (Inr (int (length (group_serials db g)) + 1
                                                  + int (j - i))))
                      [0..<length reqs])"
  using assms
proof (induction "length reqs - i" arbitrary: i db ts)
  case 0
  then have i: "i = length reqs" by simp
  have "map (\<lambda>j. if j < i then ts ! j
                        else Finished (Inr (int (length (group_serials db g)) + 1
                                            + int (j - i))))
                [0..<length reqs] = ts"
    using "0.prems"(3) i by (intro nth_equalityI) simp_all
  moreover have "fold (sched_exec reqs)
                  (concat (map (\<lambda>i. [ReadSerial i, InsertCommit i]) [i..<length reqs]))
                  (db, ts) = (db, ts)"
    using i by simp
  ultimately show ?case by metis
next
  case (Suc n)
  then have lt: "i < length reqs" by simp
  have dr: "drop i reqs = reqs ! i # drop (Suc i) reqs"
    using lt by (simp add: Cons_nth_drop_Suc)
  have gi: "fst (reqs ! i) = g"
    using Suc.prems(1) [unfolded dr] by (simp add: uploads_fit_def)
  from uploads_fit_step [OF Suc.prems(1) [unfolded dr]] obtain db1 where
    reg: "register_upload db g (snd (reqs ! i))
            = Inr (int (length (group_serials db g)) + 1, db1)" and
    fit1: "uploads_fit g db1 (drop (Suc i) reqs)" and
    len1: "length (group_serials db1 g) = Suc (length (group_serials db g))"
    by blast
  let ?s = "int (length (group_serials db g)) + 1"
  let ?ts1 = "ts[i := Finished (Inr ?s)]"
  have pair: "sched_exec reqs (InsertCommit i) (sched_exec reqs (ReadSerial i) (db, ts))
                = (db1, ?ts1)"
    using lt Suc.prems(3,4) gi reg by (intro sched_pair) auto
  have ns: "\<forall>j. Suc i \<le> j \<and> j < length reqs \<longrightarrow> ?ts1 ! j = NotStarted"
    using Suc.prems(4) by auto
  have "n = length reqs - Suc i" using Suc.hyps(2) by simp
  from Suc.hyps(1) [OF this fit1 _ _ ns] lt Suc.prems(3) obtain db' where
    ih: "fold (sched_exec reqs)
           (concat (map (\<lambda>i. [ReadSerial i, InsertCommit i]) [Suc i..<length reqs]))
           (db1, ?ts1)
         = (db', map (\<lambda>j. if j < Suc i then ?ts1 ! j
                             else Finished (Inr (int (length (group_serials db1 g)) + 1
                                                 + int (j - Suc i))))
                     [0..<length reqs])"
    by auto
  have same: "map (\<lambda>j. if j < Suc i then ?ts1 ! j
                         else Finished (Inr (int (length (group_serials db1 g)) + 1
                                             + int (j - Suc i))))
                  [0..<length reqs]
            = map (\<lambda>j. if j < i then ts ! j
                         else Finished (Inr (int (length (group_serials db g)) + 1
                                             + int (j - i))))
                  [0..<length reqs]"
  proof (rule map_cong [OF refl])
    fix j assume "j \<in> set [0..<length reqs]"
    then have j: "j < length ts" using Suc.prems(3) by simp
    consider "j < i" | "j = i" | "i < j" by linarith
    then show "(if j < Suc i then ?ts1 ! j
                else Finished (Inr (int (length (group_serials db1 g)) + 1 + int (j - Suc i))))
             = (if j < i then ts ! j
                else Finished (Inr (int (length (group_serials db g)) + 1 + int (j - i))))"
    proof cases
      case 1
      then show ?thesis by simp
    next
      case 2
      then show ?thesis using j by simp
    next
      case 3
      then have "int (j - Suc i) + 1 = int (j - i)" by simp
      then show ?thesis using 3 by (simp add: len1)
    qed
  qed
  have "[i..<length reqs] = i # [Suc i..<length reqs]"
    using lt by (simp add: upt_conv_Cons)
  then show ?case
    using pair ih same by simp
qed

lemma assigned_serials_all_saved:
  "assigned_serials (map (\<lambda>j. Finished (Inr (f j))) js) = map f js"
  by (induction js) (simp_all add: assigned_serials_def saved_serial_def)

lemma serial_schedule_all_saved:
  assumes "uploads_fit g db reqs" "group_files db g = []"
  shows "assigned_serials (snd (run_schedule reqs (serial_schedule (length reqs)) db))
           = map (\<lambda>j. int j + 1) [0..<length reqs]"
proof -
  have ns: "\<forall>j. 0 \<le> j \<and> j < length reqs \<longrightarrow>
              replicate (length reqs) NotStarted ! j = NotStarted"
    by simp
  from serial_schedule_from [of g db 0 reqs "replicate (length reqs) NotStarted"]
    assms(1) ns
  obtain db' where
    "fold (sched_exec reqs)
        (concat (map (\<lambda>i. [ReadSerial i, InsertCommit i]) [0..<length reqs]))
        (db, replicate (length reqs) NotStarted)
      = (db', map (\<lambda>j. Finished (Inr (int (length (group_serials db g)) + 1 + int j)))
                  [0..<length reqs])"
    by auto
  then have "snd (run_schedule reqs (serial_schedule (length reqs)) db)
      = map (\<lambda>j. Finished (Inr (int j + 1))) [0..<length reqs]"
    using assms(2) by (simp add: run_schedule_def serial_schedule_def group_serials_def)
  then show ?thesis by (simp add: assigned_serials_all_saved)
qed


text \<open>
  C1, as the code has it. The upload transaction takes no lock on the group: it reads
  \<open>MAX(serial_number) + 1\<close> and inserts later, and \<open>UNIQUE(group_id, serial_number)\<close>
  rejects an insert whose serial has been taken in between. For \<open>N\<close> uploads to one
  group that has no files, in every order of their reads and inserts, the serial numbers
  of the uploads that are saved are exactly \<open>1..k\<close>, \<open>k\<close> the number saved, with no
  duplicate, and they are the serial numbers present in the group; \<open>k\<close> is at most
  \<open>N\<close>. When each upload ends before the next begins and the requests fit the store,
  all \<open>N\<close> are saved, with the serials \<open>1..N\<close> in order.
\<close>

theorem overlapping_uploads_serials:
  assumes "\<forall>r\<in>set reqs. fst r = g" and "group_files db g = []"
  shows "distinct (assigned_serials (snd (run_schedule reqs sched db)))
       \<and> set (assigned_serials (snd (run_schedule reqs sched db)))
           = {1..int (length (assigned_serials (snd (run_schedule reqs sched db))))}
       \<and> length (assigned_serials (snd (run_schedule reqs sched db))) \<le> length reqs
       \<and> distinct (group_serials (fst (run_schedule reqs sched db)) g)
       \<and> set (group_serials (fst (run_schedule reqs sched db)) g)
           = set (assigned_serials (snd (run_schedule reqs sched db)))
       \<and> (uploads_fit g db reqs \<longrightarrow>
            assigned_serials (snd (run_schedule reqs (serial_schedule (length reqs)) db))
              = map (\<lambda>j. int j + 1) [0..<length reqs])"
proof -
  obtain db' ts where R: "run_schedule reqs sched db = (db', ts)"
    by (cases "run_schedule reqs sched db")
  have "sched_inv g reqs (run_schedule reqs sched db)"
    unfolding run_schedule_def
    by (rule sched_inv_fold [OF assms(1) sched_inv_initial [OF assms(2)]])
  then have
    len: "length ts = length reqs" and
    dist: "distinct (group_serials db' g)" and
    seg: "set (group_serials db' g) = {1..int (length (group_serials db' g))}" and
    aset: "set (assigned_serials ts) = set (group_serials db' g)" and
    alen: "length (assigned_serials ts) = length (group_serials db' g)"
    by (simp_all add: R sched_inv_def)
  have "card (set (assigned_serials ts)) = length (assigned_serials ts)"
    using distinct_card [OF dist] aset alen by simp
  then have ad: "distinct (assigned_serials ts)" by (rule card_distinct)
  have le: "length (assigned_serials ts) \<le> length reqs"
    using assigned_serials_length [of ts] len by simp
  show ?thesis
    using ad seg aset alen le dist serial_schedule_all_saved [OF _ assms(2), of reqs]
    by (simp add: R)
qed

theorem overlapping_uploads_serials_witness:
  "assigned_serials (snd (run_schedule two_uploads racing_schedule movies_db)) = [1]
   \<and> assigned_serials (snd (run_schedule two_uploads (serial_schedule 2) movies_db)) = [1, 2]"
proof -
  have g: "\<forall>r\<in>set two_uploads. fst r = 1" by (simp add: two_uploads_def)
  have e: "group_files movies_db 1 = []" by (simp add: group_files_def movies_db_def)
  have f: "uploads_fit 1 movies_db two_uploads"
    by (simp add: uploads_fit_def two_uploads_def movies_db_def file_a_def file_b_def
          demo_meta_def int4_def int8_def group_serials_def group_files_def)
  have r: "assigned_serials (snd (run_schedule two_uploads racing_schedule movies_db)) = [1]"
    by code_simp
  have n: "length two_uploads = 2" by (simp add: two_uploads_def)
  from overlapping_uploads_serials [OF g e, of racing_schedule] f
  have "assigned_serials (snd (run_schedule two_uploads
            (serial_schedule (length two_uploads)) movies_db))
          = map (\<lambda>j. int j + 1) [0..<length two_uploads]"
    by blast
  then have "assigned_serials (snd (run_schedule two_uploads (serial_schedule 2) movies_db))
          = [1, 2]"
    unfolding n by (simp add: upt_rec)
  with r show ?thesis by simp
qed

text \<open>
  C1 as stated fails. Two uploads to the empty group "Movies" both read the next serial,
  1, before either inserts. The first is saved with serial 1; the insert of the second
  violates the unique constraint and the upload fails. One serial is assigned, not
  \<open>{1, 2}\<close>.
\<close>

theorem overlapping_uploads_counterexample:
  "snd (run_schedule two_uploads racing_schedule movies_db)
     = [Finished (Inr 1), Finished (Inl UniqueViolation)]
   \<and> group_serials (fst (run_schedule two_uploads racing_schedule movies_db)) 1 = [1]"
  by code_simp


section \<open>Counters and rows\<close>







subsection \<open>Uploads and deletions that overlap\<close>







subsection \<open>The handlers end with the counters right\<close>











section \<open>Retrying a link code that is taken\<close>

lemma ff_code: "generate_id (replicate 16 255) = ''________T_-_''"
  by code_simp

lemma zero_code: "generate_id (replicate 16 0) = ''AAAAAAAAQACA''"
  by code_simp


lemma insert_link_collision:
  "int8 owner \<Longrightarrow> code \<in> link_code ` set (file_links db) \<Longrightarrow>
     insert_link db code fid gid kind owner = Inl UniqueViolation"
  by (simp add: insert_link_def)

lemma create_link_skip:
  assumes "int8 owner"
  shows "\<forall>j<n. generate_id (rnd (k + j)) \<in> link_code ` set (file_links db) \<Longrightarrow> n \<le> free \<Longrightarrow>
     create_link free rnd k db fid gid kind owner
       = create_link (free - n) rnd (k + n) db fid gid kind owner"
proof (induction n arbitrary: free k)
  case 0
  then show ?case by simp
next
  case (Suc n)
  then obtain free' where free: "free = Suc free'" by (cases free) auto
  have c0: "generate_id (rnd k) \<in> link_code ` set (file_links db)"
    using Suc.prems(1) [rule_format, of 0] by simp
  have rest: "\<forall>j<n. generate_id (rnd (Suc k + j)) \<in> link_code ` set (file_links db)"
    using Suc.prems(1) by auto
  have "create_link free rnd k db fid gid kind owner
          = create_link free' rnd (Suc k) db fid gid kind owner"
    using insert_link_collision [OF assms c0] by (simp add: free)
  also have "\<dots> = create_link (free' - n) rnd (Suc k + n) db fid gid kind owner"
    using Suc.IH [OF rest] Suc.prems(2) free by simp
  finally show ?case by (simp add: free)
qed

lemma create_link_never_surfaces_collision:
  "create_link free rnd k db fid gid kind owner \<noteq> LinkRaised UniqueViolation"
  by (induction free arbitrary: k) (auto simp: Let_def split: sum.splits db_error.splits)

text \<open>
  C3, as the code has it. \<open>_create_link\<close> keeps no count of its retries and has no
  error of its own for giving up. When the first \<open>n\<close> codes it generates are already
  in \<open>file_links\<close> and connections remain (\<open>n < free\<close>), it goes on to the next
  code: it returns that code if the INSERT accepts it, retries again if that one is taken
  too, and raises the INSERT's error if it is a different one. When every code collides
  until no connection is left (\<open>free \<le> n\<close>), the call does not return: the retry
  waits for a connection of the pool while the earlier attempts, which wait for the
  retry, hold theirs. On no input is the collision turned into an error for the caller.
\<close>

theorem create_link_retries_without_bound:
  assumes "int8 owner"
    and "\<forall>j<n. generate_id (rnd (k + j)) \<in> link_code ` set (file_links db)"
  shows "(n < free \<longrightarrow>
            create_link free rnd k db fid gid kind owner =
              (case insert_link db (generate_id (rnd (k + n))) fid gid kind owner of
                 Inr db' \<Rightarrow> LinkCode (generate_id (rnd (k + n))) db'
               | Inl UniqueViolation \<Rightarrow>
                   create_link (free - n - 1) rnd (k + n + 1) db fid gid kind owner
               | Inl e \<Rightarrow> LinkRaised e))
       \<and> (free \<le> n \<longrightarrow>
            create_link free rnd k db fid gid kind owner = WaitingForConnection)
       \<and> create_link free rnd k db fid gid kind owner \<noteq> LinkRaised UniqueViolation"
proof (intro conjI impI)
  assume lt: "n < free"
  then obtain m where m: "free - n = Suc m" by (cases "free - n") auto
  have "create_link free rnd k db fid gid kind owner
          = create_link (Suc m) rnd (k + n) db fid gid kind owner"
    using create_link_skip [OF assms(1) assms(2), of free fid gid kind] lt m by simp
  moreover have "m = free - n - 1" using m by simp
  ultimately show "create_link free rnd k db fid gid kind owner =
              (case insert_link db (generate_id (rnd (k + n))) fid gid kind owner of
                 Inr db' \<Rightarrow> LinkCode (generate_id (rnd (k + n))) db'
               | Inl UniqueViolation \<Rightarrow>
                   create_link (free - n - 1) rnd (k + n + 1) db fid gid kind owner
               | Inl e \<Rightarrow> LinkRaised e)"
    by (simp split: sum.splits db_error.splits)
next
  assume le: "free \<le> n"
  have "\<forall>j<free. generate_id (rnd (k + j)) \<in> link_code ` set (file_links db)"
    using assms(2) le by auto
  from create_link_skip [OF assms(1) this, of free fid gid kind]
  show "create_link free rnd k db fid gid kind owner = WaitingForConnection" by simp
next
  show "create_link free rnd k db fid gid kind owner \<noteq> LinkRaised UniqueViolation"
    by (rule create_link_never_surfaces_collision)
qed

theorem create_link_retries_without_bound_witness:
  "generate_id (six_collisions 5) \<in> link_code ` set (file_links linked_db)
   \<and> issued_code (create_link 10 six_collisions 0 linked_db None (Some 1) GroupLink 1)
       = Some ''________T_-_''"
proof -
  have o: "int8 1" by (simp add: int8_def)
  have c: "\<forall>j<6. generate_id (six_collisions (0 + j))
                   \<in> link_code ` set (file_links linked_db)"
    by (simp add: six_collisions_def zero_code linked_db_def movies_db_def)
  have code6: "generate_id (six_collisions 6) = ''________T_-_''"
    by (simp add: six_collisions_def ff_code)
  have ins: "insert_link linked_db ''________T_-_'' None (Some 1) GroupLink 1 =
     Inr (linked_db\<lparr>file_links := file_links linked_db @
                     [\<lparr>l_id = links_seq linked_db + 1, link_code = ''________T_-_'',
                       l_file_id = None, l_group_id = Some 1, link_type = GroupLink,
                       l_owner_id = 1, clicks = 0, is_active = True\<rparr>],
                   links_seq := links_seq linked_db + 1\<rparr>)"
    by (simp add: insert_link_def linked_db_def movies_db_def int8_def)
  from create_link_retries_without_bound [OF o c, of 10 None "Some 1" GroupLink]
  have "issued_code (create_link 10 six_collisions 0 linked_db None (Some 1) GroupLink 1)
          = Some ''________T_-_''"
    by (simp add: code6 ins)
  moreover from c have "generate_id (six_collisions 5) \<in> link_code ` set (file_links linked_db)"
    by simp
  ultimately show ?thesis by simp
qed

text \<open>
  C3 as stated fails. With the whole pool free, six collisions are followed by a seventh
  attempt, whose code is returned: more than five retries and no failure. And when the
  random source keeps delivering the value behind a code that is taken, the call ends
  neither with a code nor with an error: after ten attempts it waits for a connection
  that only its own callers could return.
\<close>

theorem create_link_counterexample:
  "issued_code (create_link DB_POOL_max_size six_collisions 0 linked_db None (Some 1) GroupLink 1)
     = Some ''________T_-_''
   \<and> create_link DB_POOL_max_size always_colliding 0 linked_db None (Some 1) GroupLink 1
     = WaitingForConnection"
  by code_simp


section \<open>The gate slot during a rate-limit backoff\<close>

lemma held_append: "held (xs @ ys) = held xs + held ys"
  by (induction xs rule: held.induct) simp_all

lemma held_at_sleeps_append:
  "held_at_sleeps h (xs @ ys) = held_at_sleeps h xs @ held_at_sleeps (h + held xs) ys"
  by (induction h xs rule: held_at_sleeps.induct) (simp_all add: algebra_simps)

lemma upload_txn_trace_held: "held (upload_txn_trace db gid m) = 0"
  by (simp add: upload_txn_trace_def split: sum.splits)

lemma upload_txn_trace_sleeps: "held_at_sleeps h (upload_txn_trace db gid m) = []"
  by (simp add: upload_txn_trace_def split: sum.splits)

lemma process_file_upload_held:
  "process_file_upload free fwd k db ud gid m = (tr, db', ud', out) \<Longrightarrow>
     held tr = (if out = WaitingForSlot then int free else 0)
     \<and> (\<forall>x\<in>set (held_at_sleeps h tr). h < x)
     \<and> (out = WaitingForSlot \<longrightarrow> length (held_at_sleeps h tr) = free)"
proof (induction free arbitrary: k tr db' ud' out h)
  case 0
  then show ?case by auto
next
  case (Suc free)
  show ?case
  proof (cases "fwd k")
    case (Forwarded mid)
    with Suc.prems show ?thesis
      by (auto simp: Let_def held_append held_at_sleeps_append upload_txn_trace_held
            upload_txn_trace_sleeps split: sum.splits prod.splits)
  next
    case (FloodWait d)
    obtain tr1 db1 ud1 out1 where
      inner: "process_file_upload free fwd (Suc k) db ud gid m = (tr1, db1, ud1, out1)"
      by (metis prod_cases4)
    from Suc.IH [OF inner, of "h + 1"] have
      ih1: "held tr1 = (if out1 = WaitingForSlot then int free else 0)" and
      ih2: "\<forall>x\<in>set (held_at_sleeps (h + 1) tr1). h + 1 < x" and
      ih3: "out1 = WaitingForSlot \<longrightarrow> length (held_at_sleeps (h + 1) tr1) = free"
      by auto
    show ?thesis
    proof (cases "out1 = WaitingForSlot")
      case True
      with Suc.prems FloodWait inner have
        "tr = [SemAcquire, Forward, Sleep d] @ tr1" "out = WaitingForSlot"
        by auto
      then show ?thesis using ih1 ih2 ih3 True
        by (auto simp: held_append held_at_sleeps_append)
    next
      case False
      with Suc.prems FloodWait inner have
        "tr = [SemAcquire, Forward, Sleep d] @ tr1 @ [SemRelease]" "out = out1"
        by (auto split: upload_outcome.splits)
      then show ?thesis using ih1 ih2 False
        by (auto simp: held_append held_at_sleeps_append)
    qed
  next
    case ForwardError
    with Suc.prems show ?thesis by auto
  qed
qed

lemma process_file_upload_skip:
  "\<forall>j<n. \<exists>d. fwd (k + j) = FloodWait d \<Longrightarrow> n \<le> free \<Longrightarrow>
     upload_result (process_file_upload free fwd k db ud gid m)
       = upload_result (process_file_upload (free - n) fwd (k + n) db ud gid m)"
proof (induction n arbitrary: free k)
  case 0
  then show ?case by simp
next
  case (Suc n)
  then obtain free' where free: "free = Suc free'" by (cases free) auto
  from Suc.prems(1) [rule_format, of 0] obtain d where d: "fwd k = FloodWait d" by auto
  have rest: "\<forall>j<n. \<exists>d. fwd (Suc k + j) = FloodWait d"
    using Suc.prems(1) by auto
  obtain tr1 db1 ud1 out1 where
    inner: "process_file_upload free' fwd (Suc k) db ud gid m = (tr1, db1, ud1, out1)"
    by (metis prod_cases4)
  have "upload_result (process_file_upload free fwd k db ud gid m) = out1"
    using d inner by (cases out1) (simp_all add: free upload_result_def)
  also have "out1 = upload_result (process_file_upload free' fwd (Suc k) db ud gid m)"
    using inner by (simp add: upload_result_def)
  also have "\<dots> = upload_result (process_file_upload (free' - n) fwd (Suc k + n) db ud gid m)"
    using Suc.IH [OF rest] Suc.prems(2) free by simp
  finally show ?case by (simp add: free)
qed

text \<open>
  C4, as the code has it. \<open>_process_file_upload\<close> sleeps the retry-after duration inside
  \<open>async with self.upload_semaphore\<close>: at every backoff sleep of an upload at least
  one gate slot is held by it. The retry is a call of the handler from inside that block,
  which takes a further slot, and there is no retry counter and no error for giving up:
  after \<open>n\<close> rate-limit signals the outcome is that of the next attempt, made with
  \<open>n\<close> slots fewer. When the signals go on until no slot is left, the upload waits
  for a slot with all the slots it took still held. Whenever the upload does end, it
  has released every slot it acquired.
\<close>

theorem upload_backoff_keeps_slot:
  assumes "\<forall>j<n. \<exists>d. fwd (k + j) = FloodWait d"
  shows "(\<forall>x\<in>set (held_at_sleeps 0
                 (upload_events (process_file_upload free fwd k db ud gid m))). 1 \<le> x)
       \<and> (upload_result (process_file_upload free fwd k db ud gid m) \<noteq> WaitingForSlot
            \<longrightarrow> held (upload_events (process_file_upload free fwd k db ud gid m)) = 0)
       \<and> (n \<le> free \<longrightarrow>
            upload_result (process_file_upload free fwd k db ud gid m) =
            upload_result (process_file_upload (free - n) fwd (k + n) db ud gid m))
       \<and> (free \<le> n \<longrightarrow>
            upload_result (process_file_upload free fwd k db ud gid m) = WaitingForSlot
            \<and> held (upload_events (process_file_upload free fwd k db ud gid m)) = int free
            \<and> length (held_at_sleeps 0
                  (upload_events (process_file_upload free fwd k db ud gid m))) = free)"
proof -
  obtain tr db' ud' out where
    p: "process_file_upload free fwd k db ud gid m = (tr, db', ud', out)"
    by (metis prod_cases4)
  note h = process_file_upload_held [OF p, of 0]
  have a: "\<forall>x\<in>set (held_at_sleeps 0 tr). 1 \<le> x"
    using h by auto
  have b: "out \<noteq> WaitingForSlot \<longrightarrow> held tr = 0"
    using h by auto
  have c: "n \<le> free \<longrightarrow>
            upload_result (process_file_upload free fwd k db ud gid m) =
            upload_result (process_file_upload (free - n) fwd (k + n) db ud gid m)"
    using process_file_upload_skip [OF assms] by blast
  have d: "free \<le> n \<longrightarrow> out = WaitingForSlot"
  proof
    assume le: "free \<le> n"
    then have "\<forall>j<free. \<exists>d. fwd (k + j) = FloodWait d" using assms by auto
    from process_file_upload_skip [OF this, of free db ud gid m]
    show "out = WaitingForSlot" using p by (simp add: upload_result_def)
  qed
  show ?thesis
    using a b c d h by (auto simp: p upload_events_def upload_result_def)
qed

theorem upload_backoff_keeps_slot_witness:
  "upload_result (process_file_upload 5 four_floods 0 movies_db selected_movies 1 file_a)
     = Saved 1"
proof -
  have a: "\<forall>j<4. \<exists>d. four_floods (0 + j) = FloodWait d"
    by (simp add: four_floods_def)
  have r: "upload_result (process_file_upload 1 four_floods 4 movies_db selected_movies 1 file_a)
     = Saved 1"
    by code_simp
  from upload_backoff_keeps_slot [OF a, of 5 movies_db selected_movies 1 file_a]
  show ?thesis using r by simp
qed

text \<open>
  C4 as stated fails. With the gate free and one rate-limit signal, the one backoff sleep
  of the upload happens with a slot held. Four signals in a row are followed by a fifth
  attempt, which is saved: more than three retries and no failure. And when the store
  keeps signalling, the upload ends with no failure either: it waits for a sixth slot.
\<close>

theorem upload_backoff_counterexample:
  "held_at_sleeps 0 (upload_events
       (process_file_upload UPLOAD_CONCURRENCY flood_once 0 movies_db selected_movies 1 file_a))
     = [1]
   \<and> upload_result
       (process_file_upload UPLOAD_CONCURRENCY four_floods 0 movies_db selected_movies 1 file_a)
     = Saved 1
   \<and> upload_result
       (process_file_upload UPLOAD_CONCURRENCY always_flood 0 movies_db selected_movies 1 file_a)
     = WaitingForSlot"
  by code_simp

section \<open>Serial allocation and counters on upload\<close>




section \<open>Resolving a link\<close>








subsection \<open>Resolutions that overlap\<close>










section \<open>The shape of a link code\<close>

lemma b64url_alphabet_length: "length b64url_alphabet = 64"
  by (simp add: b64url_alphabet_def)

lemma b64char_mem: "n < 64 \<Longrightarrow> b64char n \<in> set b64url_alphabet"
  unfolding b64char_def using b64url_alphabet_length nth_mem [of n b64url_alphabet] by simp

lemma pad_not_in_alphabet: "CHR ''='' \<notin> set b64url_alphabet"
  by (simp add: b64url_alphabet_def)

lemma alphabet_ascii: "\<forall>c\<in>set b64url_alphabet. of_char c < (128::nat)"
  by (simp add: b64url_alphabet_def)

lemma unat_byte: "unat (a :: 8 word) < 256"
  using unsigned_less [of a, where ?'a = nat] by simp

lemma sextets:
  fixes a b c :: "8 word"
  shows "unat a div 4 < 64" "unat a mod 4 * 16 + unat b div 16 < 64"
    "unat b mod 16 * 4 + unat c div 64 < 64" "unat c mod 64 < 64"
  using unat_byte [of a] unat_byte [of b] unat_byte [of c] by arith+

lemma b64_group_chars:
  fixes a b c :: "8 word"
  shows "set [b64char (unat a div 4), b64char (unat a mod 4 * 16 + unat b div 16),
      b64char (unat b mod 16 * 4 + unat c div 64), b64char (unat c mod 64)] \<subseteq> set b64url_alphabet"
  by (simp add: b64char_mem sextets)

lemma rstrip_pad_keeps:
  assumes "CHR ''='' \<notin> set xs"
  shows "\<exists>zs. rstrip_pad (xs @ ys) = xs @ zs"
proof (cases "\<forall>c\<in>set (rev ys). c = CHR ''=''")
  case True
  have "dropWhile (\<lambda>c. c = CHR ''='') (rev xs) = rev xs"
    using assms by (cases "rev xs") (auto simp: in_set_conv_decomp)
  then show ?thesis using True by (simp add: rstrip_pad_def dropWhile_append)
next
  case False
  then have "rstrip_pad (xs @ ys) = xs @ rev (dropWhile (\<lambda>c. c = CHR ''='') (rev ys))"
    by (auto simp: rstrip_pad_def dropWhile_append)
  then show ?thesis by blast
qed

lemma nine_bytes:
  assumes "9 \<le> length (bs :: 8 word list)"
  obtains b0 b1 b2 b3 b4 b5 b6 b7 b8 rest where "bs = b0 # b1 # b2 # b3 # b4 # b5 # b6 # b7 # b8 # rest"
proof -
  from assms obtain b0 t0 where "bs = b0 # t0" "8 \<le> length t0" by (cases bs) auto
  moreover then obtain b1 t1 where "t0 = b1 # t1" "7 \<le> length t1" by (cases t0) auto
  moreover then obtain b2 t2 where "t1 = b2 # t2" "6 \<le> length t2" by (cases t1) auto
  moreover then obtain b3 t3 where "t2 = b3 # t3" "5 \<le> length t3" by (cases t2) auto
  moreover then obtain b4 t4 where "t3 = b4 # t4" "4 \<le> length t4" by (cases t3) auto
  moreover then obtain b5 t5 where "t4 = b5 # t5" "3 \<le> length t5" by (cases t4) auto
  moreover then obtain b6 t6 where "t5 = b6 # t6" "2 \<le> length t6" by (cases t5) auto
  moreover then obtain b7 t7 where "t6 = b7 # t7" "1 \<le> length t7" by (cases t6) auto
  moreover then obtain b8 t8 where "t7 = b8 # t8" by (cases t7) auto
  ultimately show ?thesis using that by blast
qed

lemma stamp_version: "((x :: 8 word) AND 0x0F OR 0x40) AND 0x0F = x AND 0x0F"
  by (simp add: bit.conj_disj_distrib2 and.assoc)

lemma stamp_variant: "((x :: 8 word) AND 0x3F OR 0x80) AND 0x3F = x AND 0x3F"
  by (simp add: bit.conj_disj_distrib2 and.assoc)

lemma b64url_alphabet_distinct: "distinct b64url_alphabet"
  by (simp add: b64url_alphabet_def)
lemma b64url_index_b64char:
  assumes "n < 64"
  shows "b64url_index (b64char n) = n"
proof -
  have "takeWhile (\<lambda>x. x \<noteq> b64url_alphabet ! n) b64url_alphabet = take n b64url_alphabet"
  proof (rule takeWhile_eq_take_P_nth)
    fix i assume "i < n" "i < length b64url_alphabet"
    then show "b64url_alphabet ! i \<noteq> b64url_alphabet ! n"
      using assms b64url_alphabet_distinct b64url_alphabet_length
      by (simp add: nth_eq_iff_index_eq)
  qed simp
  then show ?thesis
    using assms by (simp add: b64url_index_def b64char_def b64url_alphabet_length)
qed
lemma split_digit:
  fixes q r d :: nat
  assumes "r < d"
  shows "(q * d + r) div d = q" and "(q * d + r) mod d = r"
  using assms by simp_all

lemma sextets_back:
  fixes a b c :: "8 word"
  shows "unat a div 4 * 4 + (unat a mod 4 * 16 + unat b div 16) div 16 = unat a"
    and "(unat a mod 4 * 16 + unat b div 16) mod 16 * 16
           + (unat b mod 16 * 4 + unat c div 64) div 4 = unat b"
    and "(unat b mod 16 * 4 + unat c div 64) mod 4 * 64 + unat c mod 64 = unat c"
proof -
  have b: "unat b div 16 < 16" using unat_byte [of b] by simp
  have c: "unat c div 64 < 4" using unat_byte [of c] by simp
  note hi = split_digit [OF b, of "unat a mod 4"]
  note lo = split_digit [OF c, of "unat b mod 16"]
  show "unat a div 4 * 4 + (unat a mod 4 * 16 + unat b div 16) div 16 = unat a"
    unfolding hi by simp
  show "(unat a mod 4 * 16 + unat b div 16) mod 16 * 16
           + (unat b mod 16 * 4 + unat c div 64) div 4 = unat b"
    unfolding hi lo by simp
  show "(unat b mod 16 * 4 + unat c div 64) mod 4 * 64 + unat c mod 64 = unat c"
    unfolding lo by simp
qed

lemma urlsafe_b64decode_group:
  fixes a b c :: "8 word"
  shows "urlsafe_b64decode
           ([b64char (unat a div 4), b64char (unat a mod 4 * 16 + unat b div 16),
             b64char (unat b mod 16 * 4 + unat c div 64), b64char (unat c mod 64)] @ cs)
         = [a, b, c] @ urlsafe_b64decode cs"
proof -
  have i: "b64url_index (b64char (unat a div 4)) = unat a div 4"
    "b64url_index (b64char (unat a mod 4 * 16 + unat b div 16)) = unat a mod 4 * 16 + unat b div 16"
    "b64url_index (b64char (unat b mod 16 * 4 + unat c div 64)) = unat b mod 16 * 4 + unat c div 64"
    "b64url_index (b64char (unat c mod 64)) = unat c mod 64"
    by (rule b64url_index_b64char, rule sextets)+
  have "urlsafe_b64decode
           ([b64char (unat a div 4), b64char (unat a mod 4 * 16 + unat b div 16),
             b64char (unat b mod 16 * 4 + unat c div 64), b64char (unat c mod 64)] @ cs)
        = [of_nat (unat a), of_nat (unat b), of_nat (unat c)] @ urlsafe_b64decode cs"
    by (simp only: append_Cons append_Nil urlsafe_b64decode.simps i sextets_back)
  then show ?thesis by simp
qed

lemma length_uuid4_bytes: "length (uuid4_bytes r) = length r"
  by (simp add: uuid4_bytes_def)

lemma generate_id_nine:
  assumes "9 \<le> length bs"
  shows "take 12 (rstrip_pad (urlsafe_b64encode bs)) = urlsafe_b64encode (take 9 bs)"
    and "urlsafe_b64decode (urlsafe_b64encode (take 9 bs)) = take 9 bs"
    and "length (urlsafe_b64encode (take 9 bs)) = 12"
    and "set (urlsafe_b64encode (take 9 bs)) \<subseteq> set b64url_alphabet"
proof -
  from assms obtain b0 b1 b2 b3 b4 b5 b6 b7 b8 rest
    where bs: "bs = b0 # b1 # b2 # b3 # b4 # b5 # b6 # b7 # b8 # rest"
    by (rule nine_bytes)
  let ?g = "\<lambda>a b c. [b64char (unat a div 4), b64char (unat a mod 4 * 16 + unat b div 16),
      b64char (unat b mod 16 * 4 + unat c div 64), b64char (unat c mod 64)]"
  let ?xs = "?g b0 b1 b2 @ ?g b3 b4 b5 @ ?g b6 b7 b8"
  have t: "take 9 bs = [b0, b1, b2, b3, b4, b5, b6, b7, b8]" by (simp add: bs)
  have e9: "urlsafe_b64encode (take 9 bs) = ?xs" unfolding t by simp
  have e: "urlsafe_b64encode bs = ?xs @ urlsafe_b64encode rest" by (simp add: bs)
  have sub: "set ?xs \<subseteq> set b64url_alphabet"
    using b64_group_chars [of b0 b1 b2] b64_group_chars [of b3 b4 b5]
      b64_group_chars [of b6 b7 b8] by simp
  then have "CHR ''='' \<notin> set ?xs" using pad_not_in_alphabet by blast
  from rstrip_pad_keeps [OF this, of "urlsafe_b64encode rest"] obtain zs
    where "rstrip_pad (?xs @ urlsafe_b64encode rest) = ?xs @ zs" ..
  then have "take 12 (rstrip_pad (urlsafe_b64encode bs)) = ?xs" unfolding e by simp
  then show "take 12 (rstrip_pad (urlsafe_b64encode bs)) = urlsafe_b64encode (take 9 bs)"
    unfolding e9 .
  show "length (urlsafe_b64encode (take 9 bs)) = 12" unfolding e9 by simp
  show "set (urlsafe_b64encode (take 9 bs)) \<subseteq> set b64url_alphabet" unfolding e9 by (rule sub)
  have "urlsafe_b64decode ?xs = [b0, b1, b2] @ [b3, b4, b5] @ [b6, b7, b8] @ urlsafe_b64decode []"
    using urlsafe_b64decode_group [of b0 b1 b2 "?g b3 b4 b5 @ ?g b6 b7 b8"]
      urlsafe_b64decode_group [of b3 b4 b5 "?g b6 b7 b8"]
      urlsafe_b64decode_group [of b6 b7 b8 "[]"]
    by (simp only: append_assoc append_Nil2)
  then show "urlsafe_b64decode (urlsafe_b64encode (take 9 bs)) = take 9 bs"
    unfolding e9 t by simp
qed

lemma uuid4_bytes_nth:
  assumes "length r = 16" "i < 9"
  shows "take 9 (uuid4_bytes r) ! i =
           (if i = 6 then (r ! 6 AND 0x0F) OR 0x40
            else if i = 8 then (r ! 8 AND 0x3F) OR 0x80 else r ! i)"
  using assms by (simp add: uuid4_bytes_def nth_list_update)

lemma uuid4_bytes_same_prefix:
  assumes "length r = 16" "length r' = 16"
  shows "take 9 (uuid4_bytes r') = take 9 (uuid4_bytes r) \<longleftrightarrow>
           (\<forall>i<9. i \<noteq> 6 \<and> i \<noteq> 8 \<longrightarrow> r' ! i = r ! i)
           \<and> r' ! 6 AND 0x0F = r ! 6 AND 0x0F \<and> r' ! 8 AND 0x3F = r ! 8 AND 0x3F"
proof
  assume eq: "take 9 (uuid4_bytes r') = take 9 (uuid4_bytes r)"
  have n: "take 9 (uuid4_bytes r') ! i = take 9 (uuid4_bytes r) ! i" for i
    using eq by simp
  have "r' ! i = r ! i" if "i < 9" "i \<noteq> 6" "i \<noteq> 8" for i
    using n [of i] that uuid4_bytes_nth [OF assms(1) that(1)] uuid4_bytes_nth [OF assms(2) that(1)]
    by simp
  moreover have "(r' ! 6 AND 0x0F) OR 0x40 = (r ! 6 AND 0x0F) OR 0x40"
    using n [of 6] uuid4_bytes_nth [OF assms(1), of 6] uuid4_bytes_nth [OF assms(2), of 6]
    by simp
  then have "r' ! 6 AND 0x0F = r ! 6 AND 0x0F"
    using stamp_version [of "r' ! 6"] stamp_version [of "r ! 6"] by metis
  moreover have "(r' ! 8 AND 0x3F) OR 0x80 = (r ! 8 AND 0x3F) OR 0x80"
    using n [of 8] uuid4_bytes_nth [OF assms(1), of 8] uuid4_bytes_nth [OF assms(2), of 8]
    by simp
  then have "r' ! 8 AND 0x3F = r ! 8 AND 0x3F"
    using stamp_variant [of "r' ! 8"] stamp_variant [of "r ! 8"] by metis
  ultimately show "(\<forall>i<9. i \<noteq> 6 \<and> i \<noteq> 8 \<longrightarrow> r' ! i = r ! i)
           \<and> r' ! 6 AND 0x0F = r ! 6 AND 0x0F \<and> r' ! 8 AND 0x3F = r ! 8 AND 0x3F"
    by blast
next
  assume a: "(\<forall>i<9. i \<noteq> 6 \<and> i \<noteq> 8 \<longrightarrow> r' ! i = r ! i)
           \<and> r' ! 6 AND 0x0F = r ! 6 AND 0x0F \<and> r' ! 8 AND 0x3F = r ! 8 AND 0x3F"
  show "take 9 (uuid4_bytes r') = take 9 (uuid4_bytes r)"
  proof (rule nth_equalityI)
    show "length (take 9 (uuid4_bytes r')) = length (take 9 (uuid4_bytes r))"
      using assms by (simp add: length_uuid4_bytes)
  next
    fix i assume "i < length (take 9 (uuid4_bytes r'))"
    then have i: "i < 9" by simp
    show "take 9 (uuid4_bytes r') ! i = take 9 (uuid4_bytes r) ! i"
      unfolding uuid4_bytes_nth [OF assms(1) i] uuid4_bytes_nth [OF assms(2) i]
      using a i by simp
  qed
qed

text \<open>
  C7. Whatever 128-bit value \<open>r\<close> the random source delivers, the code
  \<open>generate_id\<close> derives from it is exactly 12 characters long, every character is one
  of the 64 of the URL-safe base64 alphabet (\<open>A-Z\<close>, \<open>a-z\<close>, \<open>0-9\<close>, \<open>-\<close>,
  \<open>_\<close>), none is the padding character \<open>=\<close>, and all are ASCII. The code is made
  from the random value: it is the URL-safe base64 of the first nine bytes of the UUID,
  and read back it gives nine bytes of which seven (0 to 5, and 7) are those of \<open>r\<close>,
  the one at 6 is the low half of byte 6 of \<open>r\<close> under the version \<open>0100\<close>, and the
  one at 8 the low six bits of byte 8 of \<open>r\<close> under the variant \<open>10\<close>. So two random
  values get the same code exactly when they agree in these 66 bits; the other bits of
  the 128 do not reach the code.
\<close>

theorem generate_id_shape:
  assumes "length r = 16"
  shows "length (generate_id r) = 12
       \<and> set (generate_id r) \<subseteq> set b64url_alphabet
       \<and> CHR ''='' \<notin> set (generate_id r)
       \<and> (\<forall>c\<in>set (generate_id r). of_char c < (128::nat))
       \<and> generate_id r = urlsafe_b64encode (take 9 (uuid4_bytes r))
       \<and> length (urlsafe_b64decode (generate_id r)) = 9
       \<and> (\<forall>i<9. i \<noteq> 6 \<and> i \<noteq> 8 \<longrightarrow> urlsafe_b64decode (generate_id r) ! i = r ! i)
       \<and> urlsafe_b64decode (generate_id r) ! 6 = (r ! 6 AND 0x0F) OR 0x40
       \<and> urlsafe_b64decode (generate_id r) ! 8 = (r ! 8 AND 0x3F) OR 0x80
       \<and> (\<forall>r'. length r' = 16 \<longrightarrow>
             (generate_id r' = generate_id r \<longleftrightarrow>
                (\<forall>i<9. i \<noteq> 6 \<and> i \<noteq> 8 \<longrightarrow> r' ! i = r ! i)
                \<and> r' ! 6 AND 0x0F = r ! 6 AND 0x0F \<and> r' ! 8 AND 0x3F = r ! 8 AND 0x3F))"
proof -
  have nine: "9 \<le> length (uuid4_bytes r)" using assms by (simp add: length_uuid4_bytes)
  note g = generate_id_nine [OF nine]
  have gid: "generate_id r = urlsafe_b64encode (take 9 (uuid4_bytes r))"
    using g(1) by (simp add: generate_id_def)
  have dec: "urlsafe_b64decode (generate_id r) = take 9 (uuid4_bytes r)"
    unfolding gid by (rule g(2))
  have shape: "length (generate_id r) = 12" "set (generate_id r) \<subseteq> set b64url_alphabet"
    unfolding gid using g(3,4) by simp_all
  then have "CHR ''='' \<notin> set (generate_id r)"
    "\<forall>c\<in>set (generate_id r). of_char c < (128::nat)"
    using pad_not_in_alphabet alphabet_ascii by blast+
  moreover have "length (urlsafe_b64decode (generate_id r)) = 9"
    unfolding dec using assms by (simp add: length_uuid4_bytes)
  moreover have "\<forall>i<9. i \<noteq> 6 \<and> i \<noteq> 8 \<longrightarrow> urlsafe_b64decode (generate_id r) ! i = r ! i"
    unfolding dec using uuid4_bytes_nth [OF assms] by simp
  moreover have "urlsafe_b64decode (generate_id r) ! 6 = (r ! 6 AND 0x0F) OR 0x40"
    "urlsafe_b64decode (generate_id r) ! 8 = (r ! 8 AND 0x3F) OR 0x80"
    unfolding dec using uuid4_bytes_nth [OF assms, of 6] uuid4_bytes_nth [OF assms, of 8]
    by simp_all
  moreover have "generate_id r' = generate_id r \<longleftrightarrow>
                (\<forall>i<9. i \<noteq> 6 \<and> i \<noteq> 8 \<longrightarrow> r' ! i = r ! i)
                \<and> r' ! 6 AND 0x0F = r ! 6 AND 0x0F \<and> r' ! 8 AND 0x3F = r ! 8 AND 0x3F"
    if r': "length r' = 16" for r'
  proof -
    have nine': "9 \<le> length (uuid4_bytes r')" using r' by (simp add: length_uuid4_bytes)
    note g' = generate_id_nine [OF nine']
    have gid': "generate_id r' = urlsafe_b64encode (take 9 (uuid4_bytes r'))"
      using g'(1) by (simp add: generate_id_def)
    have "generate_id r' = generate_id r \<longleftrightarrow>
            take 9 (uuid4_bytes r') = take 9 (uuid4_bytes r)"
      unfolding gid gid' using g(2) g'(2) by metis
    then show ?thesis unfolding uuid4_bytes_same_prefix [OF assms r'] .
  qed
  ultimately show ?thesis using gid shape by blast
qed

theorem generate_id_shape_witness:
  "length (replicate 16 (0 :: 8 word)) = 16
   \<and> generate_id (replicate 16 0) = ''AAAAAAAAQACA''
   \<and> length (generate_id (replicate 16 0)) = 12
   \<and> set (generate_id (replicate 16 0)) \<subseteq> set b64url_alphabet
   \<and> urlsafe_b64decode (generate_id (replicate 16 0)) = [0, 0, 0, 0, 0, 0, 64, 0, 128]
   \<and> generate_id ((replicate 16 0)[15 := 255]) = generate_id (replicate 16 0)
   \<and> generate_id ((replicate 16 0)[0 := 4]) = ''BAAAAAAAQACA''"
proof -
  have h: "length (replicate 16 (0 :: 8 word)) = 16" by simp
  have v: "generate_id (replicate 16 0) = ''AAAAAAAAQACA''" by code_simp
  have d: "urlsafe_b64decode (generate_id (replicate 16 0)) = [0, 0, 0, 0, 0, 0, 64, 0, 128]"
    by code_simp
  have w: "generate_id ((replicate 16 0)[15 := 255]) = generate_id (replicate 16 0)"
    by code_simp
  have x: "generate_id ((replicate 16 0)[0 := 4]) = ''BAAAAAAAQACA''" by code_simp
  from generate_id_shape [OF h]
  have "length (generate_id (replicate 16 0)) = 12"
    and "set (generate_id (replicate 16 0)) \<subseteq> set b64url_alphabet"
    by blast+
  with h v d w x show ?thesis by blast
qed


section \<open>Cascading deletion\<close>

lemma file_delete_removes_links:
  assumes "file_delete_txn db user gname serial = Inr (Some f, db')"
  shows "\<forall>l\<in>set (file_links db'). l_file_id l \<noteq> Some (f_id f)"
  by (simp add: file_delete_txn_SomeD(3) [OF assms])

lemma delete_group_removes_links:
  assumes "l \<in> set (file_links db)"
    and "(\<exists>g. l_group_id l = Some g \<and> g \<in> set (deleted_group_ids db user gname))
       \<or> (\<exists>f. l_file_id l = Some f
               \<and> f \<in> set (cascaded_file_ids db (deleted_group_ids db user gname)))"
  shows "l \<notin> set (file_links (snd (delete_group db user gname)))"
  using assms(2) by (auto simp: delete_group_db link_survives_def)

lemma resolve_removed_link:
  assumes "keys_ok db"
    and "l \<in> set (file_links db)"
    and "set (file_links db') \<subseteq> set (file_links db)"
    and "l \<notin> set (file_links db')"
  shows "handle_shared_link spare copy_ok db' (link_code l) = ([Sql SelectLink], db', InvalidOrExpired)"
proof -
  from assms(1) have inj: "inj_on link_code (set (file_links db))"
    by (simp add: keys_ok_def distinct_map)
  have "\<not> (\<exists>x\<in>set (file_links db'). link_code x = link_code l \<and> is_active x)"
  proof
    assume "\<exists>x\<in>set (file_links db'). link_code x = link_code l \<and> is_active x"
    then obtain x where x: "x \<in> set (file_links db')" "link_code x = link_code l" by blast
    then have "x \<in> set (file_links db)" using assms(3) by blast
    with inj x(2) assms(2) have "x = l" by (auto dest: inj_onD)
    with x(1) assms(4) show False by simp
  qed
  then have "select_active_link db' (link_code l) = None"
    by (simp add: select_active_link_None)
  then show ?thesis by (simp add: handle_shared_link_def)
qed

lemma perform_group_delete_db:
  "fst (snd (perform_group_delete del_ok db user gname)) = snd (delete_group db user gname)"
  by (simp add: perform_group_delete_def Let_def split: prod.splits)

text \<open>
  C8. In every state the store reaches by a sequence of operations, every link's
  \<open>file_id\<close>, when set, is the id of a row of \<open>files\<close>, and its \<open>group_id\<close>, when
  set, the id of a row of \<open>groups\<close>. Deleting a file leaves no link that names it.
  Deleting a group removes every link that names the group or one of its files, and
  resolving the code of such a link afterwards answers "invalid or expired", whatever
  the pool has to spare. The
  database \<open>_perform_group_delete\<close> leaves is the one its DELETE with the cascades gives.
\<close>

theorem cascade_keeps_links_valid:
  "(\<forall>l\<in>set (file_links (run_ops ops)).
      (case l_file_id l of None \<Rightarrow> True
       | Some f \<Rightarrow> f \<in> f_id ` set (files (run_ops ops))) \<and>
      (case l_group_id l of None \<Rightarrow> True
       | Some g \<Rightarrow> g \<in> g_id ` set (groups (run_ops ops))))
   \<and> (\<forall>f db'. file_delete_txn (run_ops ops) user gname serial = Inr (Some f, db') \<longrightarrow>
          (\<forall>l\<in>set (file_links db'). l_file_id l \<noteq> Some (f_id f)))
   \<and> (\<forall>l\<in>set (file_links (run_ops ops)).
          (\<exists>g. l_group_id l = Some g
                \<and> g \<in> set (deleted_group_ids (run_ops ops) user gname))
          \<or> (\<exists>f. l_file_id l = Some f
                \<and> f \<in> set (cascaded_file_ids (run_ops ops)
                                (deleted_group_ids (run_ops ops) user gname))) \<longrightarrow>
          l \<notin> set (file_links (snd (delete_group (run_ops ops) user gname)))
          \<and> handle_shared_link spare copy_ok (snd (delete_group (run_ops ops) user gname))
                (link_code l)
              = ([Sql SelectLink], snd (delete_group (run_ops ops) user gname),
                 InvalidOrExpired))
   \<and> fst (snd (perform_group_delete del_ok (run_ops ops) user gname))
       = snd (delete_group (run_ops ops) user gname)"
proof (intro conjI ballI allI impI)
  fix l assume "l \<in> set (file_links (run_ops ops))"
  then show "case l_file_id l of None \<Rightarrow> True
       | Some f \<Rightarrow> f \<in> f_id ` set (files (run_ops ops))"
    and "case l_group_id l of None \<Rightarrow> True
       | Some g \<Rightarrow> g \<in> g_id ` set (groups (run_ops ops))"
    using store_ok_run_ops [of ops] by (auto simp: store_ok_def links_ok_def)
next
  fix f db' l
  assume "file_delete_txn (run_ops ops) user gname serial = Inr (Some f, db')"
    and "l \<in> set (file_links db')"
  then show "l_file_id l \<noteq> Some (f_id f)"
    using file_delete_removes_links by blast
next
  fix l
  assume l: "l \<in> set (file_links (run_ops ops))"
    and t: "(\<exists>g. l_group_id l = Some g
                \<and> g \<in> set (deleted_group_ids (run_ops ops) user gname))
          \<or> (\<exists>f. l_file_id l = Some f
                \<and> f \<in> set (cascaded_file_ids (run_ops ops)
                                (deleted_group_ids (run_ops ops) user gname)))"
  show gone: "l \<notin> set (file_links (snd (delete_group (run_ops ops) user gname)))"
    by (rule delete_group_removes_links [OF l t])
  have k: "keys_ok (run_ops ops)" using store_ok_run_ops [of ops] by (simp add: store_ok_def)
  have sub: "set (file_links (snd (delete_group (run_ops ops) user gname)))
               \<subseteq> set (file_links (run_ops ops))"
    by (auto simp: delete_group_db)
  show "handle_shared_link spare copy_ok (snd (delete_group (run_ops ops) user gname))
                (link_code l)
              = ([Sql SelectLink], snd (delete_group (run_ops ops) user gname),
                 InvalidOrExpired)"
    by (rule resolve_removed_link [OF k l sub gone])
next
  show "fst (snd (perform_group_delete del_ok (run_ops ops) user gname))
       = snd (delete_group (run_ops ops) user gname)"
    by (rule perform_group_delete_db)
qed

theorem cascade_keeps_links_valid_witness:
  "file_links (snd (delete_group (run_ops linked_ops) 1 ''Movies'')) = []
   \<and> link_answer (handle_shared_link 1 copy_always
         (snd (delete_group (run_ops linked_ops) 1 ''Movies'')) ''AAAAAAAAQACA'')
       = InvalidOrExpired
   \<and> link_answer (handle_shared_link 1 copy_always
         (snd (delete_group (run_ops linked_ops) 1 ''Movies'')) ''________T_-_'')
       = InvalidOrExpired
   \<and> file_links (run_ops scenario_ops) = []"
proof -
  let ?l1 = "\<lparr>l_id = 1, link_code = ''AAAAAAAAQACA'', l_file_id = None,
              l_group_id = Some 1, link_type = GroupLink, l_owner_id = 1,
              clicks = 0, is_active = True\<rparr>"
  let ?l2 = "\<lparr>l_id = 2, link_code = ''________T_-_'', l_file_id = Some 2,
              l_group_id = None, link_type = FileLink, l_owner_id = 1,
              clicks = 0, is_active = True\<rparr>"
  have links: "file_links (run_ops linked_ops) = [?l1, ?l2]" by code_simp
  have gone: "deleted_group_ids (run_ops linked_ops) 1 ''Movies'' = [1]" by code_simp
  have cas: "cascaded_file_ids (run_ops linked_ops) [1] = [1, 2]" by code_simp
  have e: "file_links (snd (delete_group (run_ops linked_ops) 1 ''Movies'')) = []"
    by code_simp
  have s: "file_links (run_ops scenario_ops) = []" by code_simp
  note c = cascade_keeps_links_valid [of linked_ops 1 "''Movies''" 0 1 copy_always]
  from c have
    "\<forall>l\<in>set (file_links (run_ops linked_ops)).
          (\<exists>g. l_group_id l = Some g
                \<and> g \<in> set (deleted_group_ids (run_ops linked_ops) 1 ''Movies''))
          \<or> (\<exists>f. l_file_id l = Some f
                \<and> f \<in> set (cascaded_file_ids (run_ops linked_ops)
                                (deleted_group_ids (run_ops linked_ops) 1 ''Movies''))) \<longrightarrow>
          handle_shared_link 1 copy_always (snd (delete_group (run_ops linked_ops) 1 ''Movies''))
                (link_code l)
              = ([Sql SelectLink], snd (delete_group (run_ops linked_ops) 1 ''Movies''),
                 InvalidOrExpired)"
    by blast
  then have
    "handle_shared_link 1 copy_always (snd (delete_group (run_ops linked_ops) 1 ''Movies''))
        ''AAAAAAAAQACA''
       = ([Sql SelectLink], snd (delete_group (run_ops linked_ops) 1 ''Movies''),
          InvalidOrExpired)"
    "handle_shared_link 1 copy_always (snd (delete_group (run_ops linked_ops) 1 ''Movies''))
        ''________T_-_''
       = ([Sql SelectLink], snd (delete_group (run_ops linked_ops) 1 ''Movies''),
          InvalidOrExpired)"
    unfolding links gone cas by simp_all
  then show ?thesis using e s by (simp add: link_answer_def)
qed


section \<open>Search\<close>

lemma ascii_lower_not_special: "\<not> like_special c \<Longrightarrow> \<not> like_special (ascii_lower c)"
proof -
  assume ns: "\<not> like_special c"
  show ?thesis
  proof (cases "CHR ''A'' \<le> c \<and> c \<le> CHR ''Z''")
    case False
    then show ?thesis using ns by (auto simp: ascii_lower_def)
  next
    case True
    then have r: "65 \<le> (of_char c :: nat)" "(of_char c :: nat) \<le> 90"
      by (simp_all add: less_eq_char_def)
    have "of_char (ascii_lower c) = (of_char c + 32 :: nat)"
      using True r by (simp add: ascii_lower_def)
    then have "97 \<le> (of_char (ascii_lower c) :: nat)" using r by simp
    then show ?thesis by (auto simp: like_special_def)
  qed
qed

lemma like_match_literal:
  "\<forall>c\<in>set p. \<not> like_special c \<Longrightarrow> like_match p t \<longleftrightarrow> t = p"
proof (induction p arbitrary: t)
  case Nil
  then show ?case by simp
next
  case (Cons a p)
  then show ?case by (cases t) (auto simp: like_special_def)
qed

lemma like_match_percent_only: "like_match ''%'' t"
  by (induction t) simp_all

lemma like_match_literal_then_any:
  "\<forall>c\<in>set p. \<not> like_special c \<Longrightarrow> like_match (p @ ''%'') t \<longleftrightarrow> prefix p t"
proof (induction p arbitrary: t)
  case Nil
  then show ?case using like_match_percent_only by simp
next
  case (Cons a p)
  then show ?case by (cases t) (auto simp: like_special_def)
qed

lemma like_match_any_then:
  "like_match (CHR ''%'' # ps) t \<longleftrightarrow> (\<exists>v. suffix v t \<and> like_match ps v)"
proof (induction t)
  case Nil
  then show ?case by simp
next
  case (Cons c cs)
  then show ?case by (auto simp: suffix_Cons)
qed

lemma like_match_substring:
  assumes "\<forall>c\<in>set p. \<not> like_special c"
  shows "like_match (''%'' @ p @ ''%'') t \<longleftrightarrow> sublist p t"
  using like_match_literal_then_any [OF assms]
  by (auto simp: like_match_any_then sublist_altdef')

lemma ilike_contains:
  assumes "\<forall>c\<in>set q. \<not> like_special c"
  shows "ilike name (''%'' @ q @ ''%'') \<longleftrightarrow> contains_ci name q"
proof -
  have "\<forall>c\<in>set (map ascii_lower q). \<not> like_special c"
    using assms ascii_lower_not_special by auto
  from like_match_substring [OF this, of "map ascii_lower name"]
  show ?thesis by (simp add: ilike_def contains_ci_def ascii_lower_def)
qed

lemma search_matches_spec:
  assumes "\<forall>c\<in>set q. \<not> like_special c"
  shows "search_matches db user (''%'' @ q @ ''%'') = spec_search_matches db user q"
  using ilike_contains [OF assms]
  by (simp add: search_matches_def spec_search_matches_def)


text \<open>
  C9, as the code has it. For every owner and every query (the arguments of the command
  joined by blanks, at least one), \<open>search_handler\<close> returns the rows of the owner's
  files, over all the owner's groups, whose name matches the pattern \<open>%query%\<close> under
  ILIKE: "No results" when there are none, and otherwise the first 25 of them in the
  order of (group name, serial number), with the note "showing top 25" exactly when at
  least 25 files match, that is exactly when 25 rows are returned. When the query has
  none of the characters \<open>%\<close>, \<open>_\<close> and backslash, the files that match are exactly
  those whose name contains the query as a substring, letter case aside.
\<close>

theorem search_handler_results:
  assumes "args \<noteq> []"
  shows "search_handler db user args =
           (if search_matches db user (''%'' @ join_args args @ ''%'') = [] then NoResults
            else SearchResults
                   (take 25 (sort_key (\<lambda>r. (sr_group_name r, sr_serial_number r))
                                      (search_matches db user (''%'' @ join_args args @ ''%''))))
                   (25 \<le> length (search_matches db user (''%'' @ join_args args @ ''%''))))
       \<and> sorted (map (\<lambda>r. (sr_group_name r, sr_serial_number r))
                      (shown_rows (search_handler db user args)))
       \<and> length (shown_rows (search_handler db user args)) \<le> 25
       \<and> ((\<forall>c\<in>set (join_args args). \<not> like_special c) \<longrightarrow>
            search_matches db user (''%'' @ join_args args @ ''%'')
              = spec_search_matches db user (join_args args))"
proof -
  let ?key = "\<lambda>r. (sr_group_name r, sr_serial_number r)"
  let ?M = "search_matches db user (''%'' @ join_args args @ ''%'')"
  let ?rows = "take 25 (sort_key ?key ?M)"
  have empty: "?rows = [] \<longleftrightarrow> ?M = []"
    by (cases ?M) simp_all
  have flag: "length ?rows = 25 \<longleftrightarrow> 25 \<le> length ?M"
    by auto
  have res: "search_handler db user args =
           (if ?M = [] then NoResults else SearchResults ?rows (25 \<le> length ?M))"
    using assms empty flag
    by (simp add: search_handler_def search_query_def Let_def del: length_take)
  have "sorted (map ?key (sort_key ?key ?M))" by (rule sorted_sort_key)
  then have srt: "sorted (map ?key ?rows)"
    by (simp add: take_map [symmetric])
  have "sorted (map ?key (shown_rows (search_handler db user args)))"
    using srt by (simp add: res)
  moreover have "length (shown_rows (search_handler db user args)) \<le> 25"
    by (simp add: res)
  ultimately show ?thesis
    using res search_matches_spec [of "join_args args" db user] by simp
qed

theorem search_handler_results_witness:
  "search_handler shared_db 1 [''FILE''] =
     SearchResults [\<lparr>sr_file_name = ''fileA.mkv'', sr_serial_number = 1,
                     sr_group_name = ''Movies'', sr_file_size = 2000000\<rparr>] False
   \<and> spec_search_matches shared_db 1 ''FILE'' =
       [\<lparr>sr_file_name = ''fileA.mkv'', sr_serial_number = 1,
         sr_group_name = ''Movies'', sr_file_size = 2000000\<rparr>]"
proof -
  have a: "[''FILE''] \<noteq> []" by simp
  have q: "\<forall>c\<in>set (join_args [''FILE'']). \<not> like_special c"
    by (simp add: like_special_def)
  have m: "search_matches shared_db 1 (''%'' @ join_args [''FILE''] @ ''%'') =
       [\<lparr>sr_file_name = ''fileA.mkv'', sr_serial_number = 1,
         sr_group_name = ''Movies'', sr_file_size = 2000000\<rparr>]"
    by code_simp
  from search_handler_results [OF a, of shared_db 1] q
  have "search_handler shared_db 1 [''FILE''] =
          (if search_matches shared_db 1 (''%'' @ join_args [''FILE''] @ ''%'') = []
           then NoResults
           else SearchResults
                  (take 25 (sort_key (\<lambda>r. (sr_group_name r, sr_serial_number r))
                     (search_matches shared_db 1 (''%'' @ join_args [''FILE''] @ ''%''))))
                  (25 \<le> length
                     (search_matches shared_db 1 (''%'' @ join_args [''FILE''] @ ''%''))))"
    and "search_matches shared_db 1 (''%'' @ join_args [''FILE''] @ ''%'')
           = spec_search_matches shared_db 1 (join_args [''FILE''])"
    by blast+
  note r = this(1) [unfolded m] and e = this(2) [unfolded m]
  from e have s: "spec_search_matches shared_db 1 ''FILE'' =
       [\<lparr>sr_file_name = ''fileA.mkv'', sr_serial_number = 1,
         sr_group_name = ''Movies'', sr_file_size = 2000000\<rparr>]"
    by simp
  from r show ?thesis unfolding s by simp
qed

text \<open>
  C9 as stated fails. The query \<open>a_b\<close> finds the file \<open>axb\<close>, whose name does not
  contain \<open>a_b\<close>: the underscore of the query is read as the wildcard of the pattern.
  And with exactly 25 files matching, all 25 are returned, none is cut off, and the note
  is shown all the same.
\<close>

theorem search_handler_counterexample:
  "search_handler underscore_db 1 [''a_b''] =
     SearchResults [\<lparr>sr_file_name = ''axb'', sr_serial_number = 1,
                     sr_group_name = ''Movies'', sr_file_size = 10\<rparr>] False
   \<and> \<not> contains_ci ''axb'' ''a_b''
   \<and> length (spec_search_matches db25 1 ''doc'') = 25
   \<and> length (shown_rows (search_handler db25 1 [''doc''])) = 25
   \<and> shown_note (search_handler db25 1 [''doc''])"
  by code_simp


section \<open>The size limit of \<open>file_handler\<close>\<close>

text \<open>
  C10. An incoming message that carries a file (\<open>extract_file_data\<close> finds a file
  object) whose size exceeds \<open>MAX_FILE_SIZE = 2000 * 1024 * 1024\<close> is turned away by
  \<open>file_handler\<close> before anything happens: the handler makes no call on the gate, the
  content store or the database (its trace is empty, so nothing is forwarded), and the
  database and the session are the ones it was given. The answer is "File is too large"
  when the user is authorized and has a group selected. A Telegram message that carries
  a file has a caption and no \<open>text\<close>, which is the third hypothesis.
\<close>

theorem file_handler_rejects_oversized:
  assumes "extract_file_data msg = (Some fo, ftype, fname, fsize, uid)"
    and "fsize > MAX_FILE_SIZE"
    and "msg_text msg = None"
  shows "file_handler authorized free fwd db ud user_id username msg =
           ([], db, ud,
            if \<not> authorized then NotAuthorized
            else if upload_group_id ud \<noteq> None \<and> upload_group_id ud \<noteq> Some 0
              then FileTooLarge
            else SelectGroupFirst)"
  using assms by (simp add: file_handler_def)

theorem file_handler_rejects_oversized_witness:
  "extract_file_data big_document =
     (Some \<lparr>fo_file_id = ''tg-big'', fo_file_unique_id = ''uidBig'',
            fo_file_size = Some 3000000000, fo_file_name = Some ''big.iso''\<rparr>,
      ''document'', ''big.iso'', 3000000000, ''uidBig'')
   \<and> 3000000000 > MAX_FILE_SIZE
   \<and> msg_text big_document = None
   \<and> file_handler True 5 (\<lambda>k. Forwarded 7) movies_db selected_movies 1 None big_document =
       ([], movies_db, selected_movies, FileTooLarge)"
proof -
  have e: "extract_file_data big_document =
     (Some \<lparr>fo_file_id = ''tg-big'', fo_file_unique_id = ''uidBig'',
            fo_file_size = Some 3000000000, fo_file_name = Some ''big.iso''\<rparr>,
      ''document'', ''big.iso'', 3000000000, ''uidBig'')"
    by (simp add: extract_file_data_def big_document_def name_or_default_def)
  have s: "(3000000000::int) > MAX_FILE_SIZE" by (simp add: MAX_FILE_SIZE_def)
  have t: "msg_text big_document = None" by (simp add: big_document_def)
  from file_handler_rejects_oversized [OF e s t, of True 5 "\<lambda>k. Forwarded 7" movies_db
      selected_movies 1 None]
  show ?thesis using e s t by (simp add: selected_movies_def)
qed


end
